theory Spec2Isabelle
  imports Main "HOL-Library.FSet" "HOL-Library.Multiset"
begin

section \<open>Coverage recording and evaluation of \<open>brownie/cli/coverage.py\<close>\<close>

text \<open>
  The theory embeds the core of \<open>main\<close> in \<open>src/brownie/cli/coverage.py\<close>: the trace
  recorder (lines 87-125), the coverage evaluator (lines 127-163) and the bytecode hash
  (lines 165-174). Python dictionaries whose iteration order the code relies on are
  association lists in insertion order, Python sets of transactions are finite sets of
  run identifiers, every exception the code can raise is a value of \<open>error\<close>.
\<close>

subsection \<open>Data model\<close>

datatype error = StopIteration | KeyError | IndexError | TypeError | ZeroDivisionError

text \<open>
  One step of a transaction trace: \<open>t['pc']\<close>, \<open>t['op']\<close>, \<open>t['contractName']\<close> and
  \<open>t['source']['filename']\<close>. A falsy name or filename (\<open>None\<close>, \<open>''\<close>) is the empty string.
\<close>

record instr =
  i_pc :: int
  i_op :: string
  i_contractName :: string
  i_source :: string

text \<open>
  A transaction of the test history. The object itself is what the code stores in its
  sets; \<open>tx_id\<close> is that identity. A falsy \<open>tx.receiver\<close> is the empty string.
\<close>

record 'r tx =
  tx_id :: 'r
  tx_receiver :: string
  tx_trace :: "instr list"

text \<open>
  The keys \<open>'tx'\<close>, \<open>'true'\<close> and \<open>'false'\<close> of a line item. The code creates the three
  together (lines 110-111 and 116-117), so a line item carries all of them or none.
\<close>

record 'r runs =
  runs_tx :: "'r fset"
  runs_true :: "'r fset"
  runs_false :: "'r fset"

text \<open>
  Modelled from the spec: the layout of a coverage map, which the build loader
  (\<open>get_build\<close>, not in this file) supplies. A line item has its program counters
  \<open>'pc'\<close> and an optional program counter \<open>'jump'\<close> of its conditional jump; a function
  item \<open>'fn'\<close> has its program counters; \<open>'total'\<close> is the weight of the function.
\<close>

record 'r line_rec =
  ln_pc :: "int list"
  ln_jump :: "int option"
  ln_runs :: "'r runs option"

record 'r fn_rec =
  fn_pc :: "int list"
  fn_tx :: "'r fset option"

record 'r maps =
  m_fn :: "'r fn_rec"
  m_line :: "'r line_rec list"
  m_total :: int

type_synonym 'r fn_map = "(string \<times> 'r maps) list"
type_synonym 'r contract_map = "(string \<times> 'r fn_map) list"
type_synonym 'r coverage_map = "(string \<times> 'r contract_map) list"

subsection \<open>Trace recorder (lines 87-125)\<close>

text \<open>
  \<open>next(x for x in xs if P x)\<close> followed by an in-place update \<open>f\<close> of the item found.
  An exhausted generator raises \<open>StopIteration\<close>. A dictionary lookup \<open>d[k]\<close> is the same
  search for the item with key \<open>k\<close> (the keys of a dictionary are unique) and raises
  \<open>KeyError\<close>: the error to raise is the first argument. An error of \<open>f\<close> goes through.
\<close>

fun update_first :: "error \<Rightarrow> ('a \<Rightarrow> bool) \<Rightarrow> ('a \<Rightarrow> error + 'a) \<Rightarrow> 'a list \<Rightarrow> error + 'a list" where
  "update_first e P f [] = Inl e"
| "update_first e P f (x # xs) =
     (if P x then (case f x of Inl e' \<Rightarrow> Inl e' | Inr y \<Rightarrow> Inr (y # xs))
      else (case update_first e P f xs of Inl e' \<Rightarrow> Inl e' | Inr ys \<Rightarrow> Inr (x # ys)))"

text \<open>An update of the value of a dictionary item; the key stays.\<close>

definition on_value :: "('v \<Rightarrow> error + 'v) \<Rightarrow> 'k \<times> 'v \<Rightarrow> error + 'k \<times> 'v" where
  "on_value f kv = (case f (snd kv) of Inl e \<Rightarrow> Inl e | Inr v \<Rightarrow> Inr (fst kv, v))"

text \<open>\<open>for key in ('tx', 'true', 'false'): ln.setdefault(key, set())\<close>\<close>

definition setdefault_runs :: "'r line_rec \<Rightarrow> 'r runs" where
  "setdefault_runs ln =
     (case ln_runs ln of
        None \<Rightarrow> \<lparr>runs_tx = {||}, runs_true = {||}, runs_false = {||}\<rparr>
      | Some rs \<Rightarrow> rs)"

text \<open>Lines 110-113: an opcode other than \<open>JUMPI\<close> records the transaction in \<open>ln['tx']\<close>.\<close>

definition record_hit :: "'r \<Rightarrow> 'r line_rec \<Rightarrow> error + 'r line_rec" where
  "record_hit r ln =
     (let rs = setdefault_runs ln
      in Inr (ln\<lparr>ln_runs := Some (rs\<lparr>runs_tx := finsert r (runs_tx rs)\<rparr>)\<rparr>))"

text \<open>
  Lines 116-122: a \<open>JUMPI\<close> at \<open>pc\<close>. \<open>nxt\<close> is the program counter of \<open>tx.trace[i+1]\<close>,
  \<open>None\<close> when \<open>i\<close> is the last index, where the subscript raises \<open>IndexError\<close>.
\<close>

definition record_jump :: "'r \<Rightarrow> int \<Rightarrow> int option \<Rightarrow> 'r line_rec \<Rightarrow> error + 'r line_rec" where
  "record_jump r pc nxt ln =
     (let rs = setdefault_runs ln
      in if r |\<notin>| runs_tx rs then Inr (ln\<lparr>ln_runs := Some rs\<rparr>)
         else (case nxt of
                 None \<Rightarrow> Inl IndexError
               | Some npc \<Rightarrow>
                   if npc = pc + 1
                   then Inr (ln\<lparr>ln_runs := Some (rs\<lparr>runs_false := finsert r (runs_false rs)\<rparr>)\<rparr>)
                   else Inr (ln\<lparr>ln_runs := Some (rs\<lparr>runs_true := finsert r (runs_true rs)\<rparr>)\<rparr>)))"

text \<open>\<open>fn['fn'].setdefault('tx', set()).add(tx)\<close>\<close>

definition add_fn_tx :: "'r \<Rightarrow> 'r maps \<Rightarrow> 'r maps" where
  "add_fn_tx r m =
     m\<lparr>m_fn := (m_fn m)\<lparr>fn_tx :=
          Some (finsert r (case fn_tx (m_fn m) of None \<Rightarrow> {||} | Some s \<Rightarrow> s))\<rparr>\<rparr>"

text \<open>
  Lines 106-122, inside the function item found. The \<open>StopIteration\<close> of a line lookup
  is caught at line 124 after the transaction was added to the function item.
\<close>

definition record_fn :: "'r \<Rightarrow> instr \<Rightarrow> int option \<Rightarrow> 'r maps \<Rightarrow> error + 'r maps" where
  "record_fn r t nxt m =
     (let m1 = add_fn_tx r m
      in case (if i_op t \<noteq> ''JUMPI''
               then update_first StopIteration (\<lambda>ln. i_pc t \<in> set (ln_pc ln))
                      (record_hit r) (m_line m1)
               else update_first StopIteration (\<lambda>ln. ln_jump ln = Some (i_pc t))
                      (record_jump r (i_pc t) nxt) (m_line m1)) of
           Inl StopIteration \<Rightarrow> Inr m1
         | Inl e \<Rightarrow> Inl e
         | Inr ls \<Rightarrow> Inr (m1\<lparr>m_line := ls\<rparr>))"

text \<open>
  Line 105: the first function of the source file whose \<open>'pc'\<close> holds the program
  counter; none raises \<open>StopIteration\<close>, caught at line 124.
\<close>

definition record_source :: "'r \<Rightarrow> instr \<Rightarrow> int option \<Rightarrow> 'r fn_map \<Rightarrow> error + 'r fn_map" where
  "record_source r t nxt fm =
     (case update_first StopIteration (\<lambda>kv. i_pc t \<in> set (fn_pc (m_fn (snd kv))))
             (on_value (record_fn r t nxt)) fm of
        Inl StopIteration \<Rightarrow> Inr fm
      | Inl e \<Rightarrow> Inl e
      | Inr fm' \<Rightarrow> Inr fm')"

text \<open>Line 105: \<open>coverage_map[name][source]\<close>, a \<open>KeyError\<close> when the file is no key.\<close>

definition record_contract ::
  "'r \<Rightarrow> instr \<Rightarrow> int option \<Rightarrow> 'r contract_map \<Rightarrow> error + 'r contract_map" where
  "record_contract r t nxt c =
     update_first KeyError (\<lambda>kv. fst kv = i_source t) (on_value (record_source r t nxt)) c"

text \<open>Lines 99-100: the coverage map of a contract is loaded when its name is first seen.\<close>

definition load_build :: "(string \<Rightarrow> 'r contract_map) \<Rightarrow> string \<Rightarrow> 'r coverage_map \<Rightarrow> 'r coverage_map" where
  "load_build get_build name cm =
     (if name \<in> fst ` set cm then cm else cm @ [(name, get_build name)])"

text \<open>Lines 93-125: the body of the loop over the trace, for one index.\<close>

definition record_instr ::
  "(string \<Rightarrow> 'r contract_map) \<Rightarrow> 'r \<Rightarrow> instr \<Rightarrow> int option \<Rightarrow> 'r coverage_map
     \<Rightarrow> error + 'r coverage_map" where
  "record_instr get_build r t nxt cm =
     (if i_contractName t = [] \<or> i_source t = [] then Inr cm
      else update_first KeyError (\<lambda>kv. fst kv = i_contractName t)
             (on_value (record_contract r t nxt))
             (load_build get_build (i_contractName t) cm))"

text \<open>Line 92: the loop over the indices of one trace; the rest of the list is \<open>trace[i+1:]\<close>.\<close>

fun record_trace ::
  "(string \<Rightarrow> 'r contract_map) \<Rightarrow> 'r \<Rightarrow> instr list \<Rightarrow> 'r coverage_map \<Rightarrow> error + 'r coverage_map" where
  "record_trace get_build r [] cm = Inr cm"
| "record_trace get_build r (t # ts) cm =
     (case record_instr get_build r t (case ts of [] \<Rightarrow> None | n # _ \<Rightarrow> Some (i_pc n)) cm of
        Inl e \<Rightarrow> Inl e
      | Inr cm' \<Rightarrow> record_trace get_build r ts cm')"


text \<open>Lines 89-91: a transaction without receiver is skipped.\<close>

definition record_tx ::
  "(string \<Rightarrow> 'r contract_map) \<Rightarrow> 'r tx \<Rightarrow> 'r coverage_map \<Rightarrow> error + 'r coverage_map" where
  "record_tx get_build x cm =
     (if tx_receiver x = [] then Inr cm else record_trace get_build (tx_id x) (tx_trace x) cm)"

fun record_history ::
  "(string \<Rightarrow> 'r contract_map) \<Rightarrow> 'r tx list \<Rightarrow> 'r coverage_map \<Rightarrow> error + 'r coverage_map" where
  "record_history get_build [] cm = Inr cm"
| "record_history get_build (x # xs) cm =
     (case record_tx get_build x cm of
        Inl e \<Rightarrow> Inl e
      | Inr cm' \<Rightarrow> record_history get_build xs cm')"

subsection \<open>Coverage evaluator (lines 127-163)\<close>

text \<open>
  The value of \<open>ln['jump']\<close> after lines 132-138: still what the loader supplied, or the
  list \<open>[len(ln['true']), len(ln['false'])]\<close>.
\<close>

datatype jump_value = Jump_pc "int option" | Jump_counts nat nat

record counted =
  c_jump :: jump_value
  c_count :: nat

text \<open>Python truth values: \<open>None\<close> and \<open>0\<close> are falsy, a list of two items is truthy.\<close>

definition truthy_pc :: "int option \<Rightarrow> bool" where
  "truthy_pc j = (case j of None \<Rightarrow> False | Some p \<Rightarrow> p \<noteq> 0)"

definition truthy_jump :: "jump_value \<Rightarrow> bool" where
  "truthy_jump j = (case j of Jump_pc p \<Rightarrow> truthy_pc p | Jump_counts a b \<Rightarrow> True)"

text \<open>Lines 132-138.\<close>

definition count_line :: "'r line_rec \<Rightarrow> counted" where
  "count_line ln =
     (case ln_runs ln of
        None \<Rightarrow> \<lparr>c_jump = Jump_pc (ln_jump ln), c_count = 0\<rparr>
      | Some rs \<Rightarrow>
          \<lparr>c_jump = (if truthy_pc (ln_jump ln)
                     then Jump_counts (fcard (runs_true rs)) (fcard (runs_false rs))
                     else Jump_pc (ln_jump ln)),
           c_count = fcard (runs_tx rs)\<rparr>)"

text \<open>
  The result of one function: \<open>{'pct': 0}\<close> and \<open>{'pct': 1}\<close> are \<open>Pct 0\<close> and \<open>Pct 1\<close>;
  \<open>Coverage l t f p\<close> is \<open>{'line': l, 'true': t, 'false': f, 'pct': p}\<close>.
\<close>

datatype fn_report = Pct int | Coverage "nat set" "nat set" "nat set" rat

text \<open>The running \<open>count\<close> (here \<open>cnt\<close>) and the sets \<open>coverage['line']\<close>, \<open>['true']\<close>, \<open>['false']\<close>.\<close>

type_synonym score = "int \<times> nat set \<times> nat set \<times> nat set"

text \<open>
  Lines 146-157, for the item \<open>i\<close> at index \<open>c\<close>. \<open>False not in i['jump']\<close> holds of a list
  without a zero (\<open>0 == False\<close>) and raises \<open>TypeError\<close> on a number.
\<close>

definition score_line :: "nat \<Rightarrow> counted \<Rightarrow> score \<Rightarrow> error + score" where
  "score_line c i acc =
     (case acc of (cnt, l, t, f) \<Rightarrow>
        if c_count i = 0 then Inr acc
        else if \<not> truthy_jump (c_jump i) then Inr (cnt + 1, insert c l, t, f)
        else (case c_jump i of
                Jump_pc p \<Rightarrow> Inl TypeError
              | Jump_counts a b \<Rightarrow>
                  if a \<noteq> 0 \<and> b \<noteq> 0 then Inr (cnt + 2, insert c l, t, f)
                  else Inr (cnt + (if a \<noteq> 0 then 1 else 0) + (if b \<noteq> 0 then 1 else 0),
                            l,
                            if a \<noteq> 0 then insert c t else t,
                            if b \<noteq> 0 then insert c f else f)))"

text \<open>Line 145: the loop over \<open>enumerate(maps['line'])\<close>, from index \<open>c\<close> on.\<close>

fun score_lines :: "nat \<Rightarrow> counted list \<Rightarrow> score \<Rightarrow> error + score" where
  "score_lines c [] acc = Inr acc"
| "score_lines c (i # is) acc =
     (case score_line c i acc of
        Inl e \<Rightarrow> Inl e
      | Inr acc' \<Rightarrow> score_lines (Suc c) is acc')"

text \<open>
  Line 158, \<open>count / maps['total']\<close> for a \<open>total\<close> other than 0: the division of two
  integers gives the double nearest to the exact quotient, a tie to the even
  significand of 53 bits (smaller below the normal range, where the exponent stays at
  \<open>-1074\<close>). The double is its exact rational value. \<open>bit_length\<close> is the number of binary
  digits, \<open>pow2\<close> a power of two with an integer exponent. A quotient of \<open>2 ^ 1024\<close> or
  more, where Python raises \<open>OverflowError\<close>, needs a \<open>count\<close> that exceeds twice the
  number of lines and is left out.
\<close>

definition round_half_even :: "rat \<Rightarrow> int" where
  "round_half_even q =
     (let n = \<lfloor>q\<rfloor>; d = q - of_int n
      in if d < 1 / 2 then n
         else if 1 / 2 < d then n + 1
         else if even n then n else n + 1)"

fun bit_length :: "nat \<Rightarrow> nat" where
  "bit_length n = (if n = 0 then 0 else Suc (bit_length (n div 2)))"

declare bit_length.simps [simp del]

definition pow2 :: "int \<Rightarrow> rat" where
  "pow2 e = (if 0 \<le> e then 2 ^ nat e else 1 / 2 ^ nat (- e))"

definition true_div :: "int \<Rightarrow> int \<Rightarrow> rat" where
  "true_div a b =
     (if a = 0 then 0
      else let q = \<bar>of_int a / of_int b\<bar>;
               k = int (bit_length (nat \<bar>a\<bar>)) - int (bit_length (nat \<bar>b\<bar>));
               e = max ((if pow2 k \<le> q then k else k - 1) - 52) (- 1074);
               m = round_half_even (q / pow2 e)
           in (if (0 < a) = (0 < b) then 1 else - 1) * of_int m * pow2 e)"

text \<open>
  Line 162, \<open>round(x, 2)\<close> of a double \<open>x\<close>: the exact value of \<open>x\<close> is rounded to the
  nearest hundredth, a tie to the even one. The result stands for the double nearest to
  that hundredth, which is what the report prints.
\<close>

definition round2 :: "rat \<Rightarrow> rat" where
  "round2 x = of_int (round_half_even (x * 100)) / 100"

text \<open>Lines 128-163, for the item \<open>maps\<close> of one function.\<close>

definition eval_fn :: "'r maps \<Rightarrow> error + fn_report" where
  "eval_fn m =
     (if (case fn_tx (m_fn m) of None \<Rightarrow> True | Some s \<Rightarrow> s = {||}) then Inr (Pct 0)
      else let ls = map count_line (m_line m)
           in if filter (\<lambda>i. c_count i \<noteq> 0) ls = [] then Inr (Pct 0)
              else (case score_lines 0 ls (0, {}, {}, {}) of
                      Inl e \<Rightarrow> Inl e
                    | Inr (cnt, l, t, f) \<Rightarrow>
                        if m_total m = 0 then Inl ZeroDivisionError
                        else if cnt = m_total m then Inr (Pct 1)
                        else Inr (Coverage l t f (round2 (true_div cnt (m_total m))))))"

text \<open>
  Line 127: the loop over all functions of all files of all contracts, in the order of
  the dictionaries; the first exception ends it. The result \<open>coverage_eval\<close> has the
  keys of the coverage map (line 101, the keys never change while recording) and one
  entry for every function (lines 130, 140, 160, 163).
\<close>

fun eval_items :: "('v \<Rightarrow> error + 'w) \<Rightarrow> ('k \<times> 'v) list \<Rightarrow> error + ('k \<times> 'w) list" where
  "eval_items ev [] = Inr []"
| "eval_items ev (kv # kvs) =
     (case ev (snd kv) of
        Inl e \<Rightarrow> Inl e
      | Inr w \<Rightarrow> (case eval_items ev kvs of
                    Inl e \<Rightarrow> Inl e
                  | Inr ws \<Rightarrow> Inr ((fst kv, w) # ws)))"

type_synonym report = "(string \<times> (string \<times> (string \<times> fn_report) list) list) list"

definition evaluate :: "'r coverage_map \<Rightarrow> error + report" where
  "evaluate cm = eval_items (eval_items (eval_items eval_fn)) cm"

text \<open>Lines 87-163: record the history into an empty coverage map, then evaluate.\<close>

definition coverage :: "(string \<Rightarrow> 'r contract_map) \<Rightarrow> 'r tx list \<Rightarrow> error + report" where
  "coverage get_build history =
     (case record_history get_build history [] of
        Inl e \<Rightarrow> Inl e
      | Inr cm \<Rightarrow> evaluate cm)"

subsection \<open>Bytecode hash (lines 169-173)\<close>

text \<open>
  \<open>sha1(bytecode[:-68].encode()).hexdigest()\<close>: the slice drops the last 68 characters
  (all of a shorter string); \<open>digest\<close> is the hash function of the library.
\<close>

definition bytecode_hash :: "(string \<Rightarrow> string) \<Rightarrow> string \<Rightarrow> string" where
  "bytecode_hash digest bytecode = digest (take (length bytecode - 68) bytecode)"

subsection \<open>The run sets of a line item\<close>

text \<open>
  The sets \<open>hit_runs\<close>, \<open>true_runs\<close> and \<open>false_runs\<close> of a line record: the sets under
  the keys \<open>'tx'\<close>, \<open>'true'\<close> and \<open>'false'\<close>, empty while the keys are absent.
\<close>

definition hit_runs :: "'r line_rec \<Rightarrow> 'r fset" where
  "hit_runs ln = (case ln_runs ln of None \<Rightarrow> {||} | Some rs \<Rightarrow> runs_tx rs)"

definition true_runs :: "'r line_rec \<Rightarrow> 'r fset" where
  "true_runs ln = (case ln_runs ln of None \<Rightarrow> {||} | Some rs \<Rightarrow> runs_true rs)"

definition false_runs :: "'r line_rec \<Rightarrow> 'r fset" where
  "false_runs ln = (case ln_runs ln of None \<Rightarrow> {||} | Some rs \<Rightarrow> runs_false rs)"

text \<open>A line item with the given run sets.\<close>

definition with_runs :: "'r line_rec \<Rightarrow> 'r fset \<Rightarrow> 'r fset \<Rightarrow> 'r fset \<Rightarrow> 'r line_rec" where
  "with_runs ln h t f = ln\<lparr>ln_runs := Some \<lparr>runs_tx = h, runs_true = t, runs_false = f\<rparr>\<rparr>"

subsection \<open>The invariant of the run sets\<close>

text \<open>
  Every run of \<open>true_runs\<close> and of \<open>false_runs\<close> of a line is a run of its \<open>hit_runs\<close>;
  the same for all lines of a function, of a file, of a contract, of the coverage map.
\<close>

definition line_inv :: "'r line_rec \<Rightarrow> bool" where
  "line_inv ln = (true_runs ln |\<subseteq>| hit_runs ln \<and> false_runs ln |\<subseteq>| hit_runs ln)"

definition maps_inv :: "'r maps \<Rightarrow> bool" where
  "maps_inv m = list_all line_inv (m_line m)"

definition fn_map_inv :: "'r fn_map \<Rightarrow> bool" where
  "fn_map_inv fm = list_all (\<lambda>kv. maps_inv (snd kv)) fm"

definition contract_inv :: "'r contract_map \<Rightarrow> bool" where
  "contract_inv c = list_all (\<lambda>kv. fn_map_inv (snd kv)) c"

definition coverage_inv :: "'r coverage_map \<Rightarrow> bool" where
  "coverage_inv cm = list_all (\<lambda>kv. contract_inv (snd kv)) cm"

text \<open>
  Modelled from the spec: the weight of a line, 2 with a conditional jump and 1 without,
  of which \<open>'total'\<close> is the sum (the loader computes it, not this file). A line is
  \<open>observed\<close> when it has a hit and, with a jump, both outcomes.
\<close>

definition weight :: "'r line_rec \<Rightarrow> int" where
  "weight ln = (if truthy_pc (ln_jump ln) then 2 else 1)"

definition observed :: "'r line_rec \<Rightarrow> bool" where
  "observed ln =
     (hit_runs ln \<noteq> {||} \<and>
      (if truthy_pc (ln_jump ln) then true_runs ln \<noteq> {||} \<and> false_runs ln \<noteq> {||} else True))"

subsection \<open>Recording without the kind of the error\<close>

text \<open>
  The order of the runs can change which exception comes first, not whether one comes.
  \<open>ok\<close> forgets the kind of the error; \<open>kcomm\<close> says that two steps that may fail give
  the same result in both orders; \<open>oupd\<close> is \<open>update_first\<close> seen through \<open>ok\<close>, where an
  exhausted search either fails or leaves the list as it is; \<open>kfold\<close> runs a list of
  steps.
\<close>

definition ok :: "error + 'a \<Rightarrow> 'a option" where
  "ok x = (case x of Inl e \<Rightarrow> None | Inr a \<Rightarrow> Some a)"

definition kcomm :: "('a \<Rightarrow> 'a option) \<Rightarrow> ('a \<Rightarrow> 'a option) \<Rightarrow> bool" where
  "kcomm f g = (\<forall>x. Option.bind (f x) g = Option.bind (g x) f)"

fun oupd :: "bool \<Rightarrow> ('a \<Rightarrow> bool) \<Rightarrow> ('a \<Rightarrow> 'a option) \<Rightarrow> 'a list \<Rightarrow> 'a list option" where
  "oupd s P f [] = (if s then None else Some [])"
| "oupd s P f (x # xs) =
     (if P x then map_option (\<lambda>y. y # xs) (f x) else map_option ((#) x) (oupd s P f xs))"

fun kfold :: "('a \<Rightarrow> 'a option) list \<Rightarrow> 'a \<Rightarrow> 'a option" where
  "kfold [] x = Some x"
| "kfold (f # fs) x = Option.bind (f x) (kfold fs)"

text \<open>The line lookup and the line update of \<open>record_fn\<close>, for either kind of opcode.\<close>

definition p_line :: "instr \<Rightarrow> 'r line_rec \<Rightarrow> bool" where
  "p_line t ln = (if i_op t \<noteq> ''JUMPI'' then i_pc t \<in> set (ln_pc ln)
                  else ln_jump ln = Some (i_pc t))"

definition o_line :: "'r \<Rightarrow> instr \<Rightarrow> int option \<Rightarrow> 'r line_rec \<Rightarrow> 'r line_rec option" where
  "o_line r t nxt ln = ok (if i_op t \<noteq> ''JUMPI'' then record_hit r ln
                           else record_jump r (i_pc t) nxt ln)"

text \<open>
  The coverage map as a partial function from contract names, without the order of
  insertion; \<open>a_instr\<close> and \<open>a_tx\<close> are \<open>record_instr\<close> and \<open>record_tx\<close> on it, and
  \<open>with_next\<close> pairs every instruction of a trace with the program counter after it.
\<close>

definition a_instr ::
  "(string \<Rightarrow> 'r contract_map) \<Rightarrow> 'r \<Rightarrow> instr \<times> int option \<Rightarrow> (string \<rightharpoonup> 'r contract_map)
     \<Rightarrow> (string \<rightharpoonup> 'r contract_map) option" where
  "a_instr gb r tn M =
     (if i_contractName (fst tn) = [] \<or> i_source (fst tn) = [] then Some M
      else map_option (\<lambda>c. M(i_contractName (fst tn) \<mapsto> c))
             (ok (record_contract r (fst tn) (snd tn)
                    (case M (i_contractName (fst tn)) of
                       None \<Rightarrow> gb (i_contractName (fst tn))
                     | Some c \<Rightarrow> c))))"

fun with_next :: "instr list \<Rightarrow> (instr \<times> int option) list" where
  "with_next [] = []"
| "with_next (t # ts) = (t, case ts of [] \<Rightarrow> None | n # _ \<Rightarrow> Some (i_pc n)) # with_next ts"

definition a_tx ::
  "(string \<Rightarrow> 'r contract_map) \<Rightarrow> 'r tx \<Rightarrow> (string \<rightharpoonup> 'r contract_map)
     \<Rightarrow> (string \<rightharpoonup> 'r contract_map) option" where
  "a_tx gb x M =
     (if tx_receiver x = [] then Some M
      else kfold (map (a_instr gb (tx_id x)) (with_next (tx_trace x))) M)"

subsection \<open>A contract with one function of two lines\<close>

text \<open>
  The example of the specification: line 0 has no jump, line 1 has its conditional jump
  at program counter 200, the weight of the function is 3.
\<close>

definition ex_build :: "string \<Rightarrow> nat contract_map" where
  "ex_build name = [(''C.sol'', [(''f'',
      \<lparr>m_fn = \<lparr>fn_pc = [100, 101, 199, 200, 201, 300], fn_tx = None\<rparr>,
       m_line = [\<lparr>ln_pc = [100, 101], ln_jump = None, ln_runs = None\<rparr>,
                 \<lparr>ln_pc = [199], ln_jump = Some 200, ln_runs = None\<rparr>],
       m_total = 3\<rparr>)])]"

definition ex_instr :: "int \<Rightarrow> string \<Rightarrow> instr" where
  "ex_instr pc opc = \<lparr>i_pc = pc, i_op = opc, i_contractName = ''C'', i_source = ''C.sol''\<rparr>"

definition ex_tx :: "nat tx" where
  "ex_tx = \<lparr>tx_id = 7, tx_receiver = ''0xabc'', tx_trace =
     [ex_instr 100 ''PUSH1'', ex_instr 199 ''PUSH1'', ex_instr 200 ''JUMPI'',
      ex_instr 300 ''JUMPDEST'']\<rparr>"

definition ex_line :: "int list \<Rightarrow> int option \<Rightarrow> nat list \<Rightarrow> nat list \<Rightarrow> nat list \<Rightarrow> nat line_rec" where
  "ex_line pcs j h t f = \<lparr>ln_pc = pcs, ln_jump = j, ln_runs =
      Some \<lparr>runs_tx = fset_of_list h, runs_true = fset_of_list t, runs_false = fset_of_list f\<rparr>\<rparr>"

definition ex_maps :: "nat line_rec list \<Rightarrow> nat maps" where
  "ex_maps ls = \<lparr>m_fn = \<lparr>fn_pc = [100, 101, 199, 200, 201, 300], fn_tx = Some {|7|}\<rparr>,
       m_line = ls, m_total = 3\<rparr>"

text \<open>The coverage map that holds the example function alone, with the given lines.\<close>

definition ex_cm :: "nat line_rec list \<Rightarrow> nat coverage_map" where
  "ex_cm ls = [(''C'', [(''C.sol'', [(''f'', ex_maps ls)])])]"

text \<open>
  Two transactions the recorder does not survive: the trace of the first ends with the
  conditional jump of line 1 after the line was hit; the second runs code of a file that
  is no key of the coverage map of the contract.
\<close>

definition ex_cut :: "nat tx" where
  "ex_cut = \<lparr>tx_id = 7, tx_receiver = ''0xabc'', tx_trace =
     [ex_instr 100 ''PUSH1'', ex_instr 199 ''PUSH1'', ex_instr 200 ''JUMPI'']\<rparr>"

definition ex_other_file :: "nat tx" where
  "ex_other_file = \<lparr>tx_id = 8, tx_receiver = ''0xabc'', tx_trace =
     [\<lparr>i_pc = 100, i_op = ''PUSH1'', i_contractName = ''C'', i_source = ''Lib.sol''\<rparr>]\<rparr>"

text \<open>A second transaction, which runs code of the contracts \<open>D\<close> and \<open>C\<close>.\<close>

definition ex_tx2 :: "nat tx" where
  "ex_tx2 = \<lparr>tx_id = 8, tx_receiver = ''0xdef'', tx_trace =
     [\<lparr>i_pc = 100, i_op = ''PUSH1'', i_contractName = ''D'', i_source = ''C.sol''\<rparr>,
      \<lparr>i_pc = 199, i_op = ''DUP1'', i_contractName = ''C'', i_source = ''C.sol''\<rparr>,
      \<lparr>i_pc = 200, i_op = ''JUMPI'', i_contractName = ''C'', i_source = ''C.sol''\<rparr>,
      \<lparr>i_pc = 201, i_op = ''STOP'', i_contractName = ''C'', i_source = ''C.sol''\<rparr>]\<rparr>"




text \<open>
  An instruction of the contract at a program counter of no function, in a file that is
  no key of the coverage map of the contract.
\<close>

definition ex_lib_instr :: instr where
  "ex_lib_instr = \<lparr>i_pc = 999, i_op = ''PUSH1'', i_contractName = ''C'', i_source = ''Lib.sol''\<rparr>"

section \<open>Properties\<close>

lemmas ex_defs = ex_build_def ex_instr_def ex_tx_def ex_line_def ex_maps_def

lemmas rec_defs = record_tx_def record_instr_def load_build_def record_contract_def
  record_source_def record_fn_def on_value_def add_fn_tx_def record_hit_def record_jump_def
  setdefault_runs_def

lemmas eval_defs = evaluate_def eval_fn_def count_line_def score_line_def truthy_pc_def
  truthy_jump_def

subsection \<open>Lookups\<close>

lemma update_first_none:
  "\<forall>x \<in> set xs. \<not> P x \<Longrightarrow> update_first e P f xs = Inl e"
  by (induction xs) simp_all

lemma update_first_found:
  "\<forall>x \<in> set pre. \<not> P x \<Longrightarrow> P x \<Longrightarrow>
   update_first e P f (pre @ x # post)
     = (case f x of Inl e' \<Rightarrow> Inl e' | Inr y \<Rightarrow> Inr (pre @ y # post))"
  by (induction pre) (simp_all split: sum.splits)

lemma update_first_all:
  assumes "update_first e P f xs = Inr ys" "list_all Q xs"
    and "\<And>x y. Q x \<Longrightarrow> f x = Inr y \<Longrightarrow> Q y"
  shows "list_all Q ys"
  using assms(1,2)
proof (induction xs arbitrary: ys)
  case Nil
  then show ?case by simp
next
  case (Cons x xs)
  then show ?case
    by (auto split: if_splits sum.splits intro: assms(3))
qed

lemma setdefault_runs_sets:
  "setdefault_runs ln = \<lparr>runs_tx = hit_runs ln, runs_true = true_runs ln, runs_false = false_runs ln\<rparr>"
  by (simp add: setdefault_runs_def hit_runs_def true_runs_def false_runs_def split: option.splits)

lemma record_hit_sets:
  "record_hit r ln = Inr (with_runs ln (finsert r (hit_runs ln)) (true_runs ln) (false_runs ln))"
  by (simp add: record_hit_def with_runs_def setdefault_runs_sets)

lemma record_jump_sets:
  "record_jump r pc nxt ln =
    (if r |\<notin>| hit_runs ln then Inr (with_runs ln (hit_runs ln) (true_runs ln) (false_runs ln))
     else (case nxt of
             None \<Rightarrow> Inl IndexError
           | Some npc \<Rightarrow>
               if npc = pc + 1
               then Inr (with_runs ln (hit_runs ln) (true_runs ln) (finsert r (false_runs ln)))
               else Inr (with_runs ln (hit_runs ln) (finsert r (true_runs ln)) (false_runs ln))))"
  by (simp add: record_jump_def with_runs_def setdefault_runs_sets split: option.splits)

lemma m_line_add_fn_tx: "m_line (add_fn_tx r m) = m_line m"
  by (simp add: add_fn_tx_def)

lemma record_fn_no_stop: "record_fn r t nxt m \<noteq> Inl StopIteration"
  by (simp add: record_fn_def Let_def split: sum.splits error.splits)

lemma record_source_no_stop: "record_source r t nxt fm \<noteq> Inl StopIteration"
  by (simp add: record_source_def split: sum.splits error.splits)

lemma record_source_found:
  assumes "\<forall>kv \<in> set fs1. i_pc t \<notin> set (fn_pc (m_fn (snd kv)))"
    and "i_pc t \<in> set (fn_pc (m_fn m))"
  shows "record_source r t nxt (fs1 @ (fname, m) # fs2)
     = (case record_fn r t nxt m of Inl e \<Rightarrow> Inl e | Inr m' \<Rightarrow> Inr (fs1 @ (fname, m') # fs2))"
proof -
  have "update_first StopIteration (\<lambda>kv. i_pc t \<in> set (fn_pc (m_fn (snd kv))))
          (on_value (record_fn r t nxt)) (fs1 @ (fname, m) # fs2)
      = (case on_value (record_fn r t nxt) (fname, m) of
           Inl e' \<Rightarrow> Inl e' | Inr y \<Rightarrow> Inr (fs1 @ y # fs2))"
    using assms by (intro update_first_found) simp_all
  then show ?thesis
    using record_fn_no_stop [of r t nxt m]
    by (simp add: record_source_def on_value_def split: sum.splits error.splits)
qed

lemma record_source_none:
  assumes "\<forall>kv \<in> set fm. i_pc t \<notin> set (fn_pc (m_fn (snd kv)))"
  shows "record_source r t nxt fm = Inr fm"
proof -
  have "update_first StopIteration (\<lambda>kv. i_pc t \<in> set (fn_pc (m_fn (snd kv))))
          (on_value (record_fn r t nxt)) fm = Inl StopIteration"
    using assms by (intro update_first_none) simp
  then show ?thesis by (simp add: record_source_def)
qed

lemma record_instr_found:
  assumes "i_contractName t \<noteq> []" "i_source t \<noteq> []"
    and "load_build gb (i_contractName t) cm
           = cs1 @ (i_contractName t, ss1 @ (i_source t, fm) # ss2) # cs2"
    and "\<forall>kv \<in> set cs1. fst kv \<noteq> i_contractName t" "\<forall>kv \<in> set ss1. fst kv \<noteq> i_source t"
  shows "record_instr gb r t nxt cm
     = (case record_source r t nxt fm of
          Inl e \<Rightarrow> Inl e
        | Inr fm' \<Rightarrow> Inr (cs1 @ (i_contractName t, ss1 @ (i_source t, fm') # ss2) # cs2))"
proof -
  have c: "record_contract r t nxt (ss1 @ (i_source t, fm) # ss2)
      = (case on_value (record_source r t nxt) (i_source t, fm) of
           Inl e' \<Rightarrow> Inl e' | Inr y \<Rightarrow> Inr (ss1 @ y # ss2))"
    unfolding record_contract_def
    using assms(5) by (intro update_first_found) auto
  have "update_first KeyError (\<lambda>kv. fst kv = i_contractName t)
          (on_value (record_contract r t nxt))
          (cs1 @ (i_contractName t, ss1 @ (i_source t, fm) # ss2) # cs2)
      = (case on_value (record_contract r t nxt) (i_contractName t, ss1 @ (i_source t, fm) # ss2) of
           Inl e' \<Rightarrow> Inl e' | Inr y \<Rightarrow> Inr (cs1 @ y # cs2))"
    using assms(4) by (intro update_first_found) auto
  then show ?thesis
    using assms(1,2,3) c
    by (simp add: record_instr_def on_value_def split: sum.splits)
qed

subsection \<open>Recorder\<close>







text \<open>
  Claim C3 (what the code does at two inputs). The recorder raises \<open>IndexError\<close> on a
  trace whose last instruction is a conditional jump of a line the run has hit, and
  \<open>KeyError\<close> on an instruction whose file is no key of the coverage map of its
  contract: line 124 catches \<open>StopIteration\<close> only.
\<close>

theorem recorder_raises:
  "coverage ex_build [ex_cut] = Inl IndexError
   \<and> coverage ex_build [ex_other_file] = Inl KeyError"
  by (simp add: coverage_def ex_defs ex_cut_def ex_other_file_def rec_defs)

text \<open>
  Claim C4 (what the code does at the failing input). The instruction \<open>ex_lib_instr\<close> is at
  a program counter of no function of its contract, and its file is no key of the
  coverage map of the contract. The recorder does not skip it: \<open>coverage_map[name][source]\<close>
  raises \<open>KeyError\<close> at line 105, before the search for the function, line 124 catches
  \<open>StopIteration\<close> only, and the recording of the trace fails.
\<close>

theorem absent_file_raises:
  "list_all (\<lambda>kv. list_all (\<lambda>fv. 999 \<notin> set (fn_pc (m_fn (snd fv)))) (snd kv)) (ex_build ''C'')
   \<and> map_of (ex_build ''C'') ''Lib.sol'' = None
   \<and> record_instr ex_build 7 ex_lib_instr (Some 100) [] = Inl KeyError
   \<and> record_trace ex_build 7 [ex_lib_instr, ex_instr 100 ''PUSH1''] [] = Inl KeyError
   \<and> coverage ex_build [\<lparr>tx_id = 7, tx_receiver = ''0xabc'',
                            tx_trace = [ex_lib_instr, ex_instr 100 ''PUSH1'']\<rparr>]
      = Inl KeyError"
  by (simp add: coverage_def ex_defs ex_lib_instr_def rec_defs)

text \<open>
  What holds of the lookups that raise \<open>StopIteration\<close>: an instruction of a file \<open>fm\<close> of
  the coverage map whose program counter is in no function of the file, or is in the
  function \<open>m\<close> but matches no line of it (no \<open>'pc'\<close> of a line holds it when the opcode is
  not \<open>JUMPI\<close>, no \<open>'jump'\<close> equals it when it is), raises nothing: the recorder returns
  the coverage map, in the second case with the run added to the function item at line
  106, and goes on with the rest of the trace.
\<close>

lemma lookup_failure_skipped:
  assumes "i_contractName t \<noteq> []" "i_source t \<noteq> []"
    and "load_build gb (i_contractName t) cm
           = cs1 @ (i_contractName t, ss1 @ (i_source t, fm) # ss2) # cs2"
    and "\<forall>kv \<in> set cs1. fst kv \<noteq> i_contractName t" "\<forall>kv \<in> set ss1. fst kv \<noteq> i_source t"
    and "nxt = (case ts of [] \<Rightarrow> None | n # _ \<Rightarrow> Some (i_pc n))"
  shows "((\<forall>kv \<in> set fm. i_pc t \<notin> set (fn_pc (m_fn (snd kv)))) \<longrightarrow>
            record_instr gb r t nxt cm = Inr (load_build gb (i_contractName t) cm)
          \<and> record_trace gb r (t # ts) cm
              = record_trace gb r ts (load_build gb (i_contractName t) cm))
       \<and> (fm = fs1 @ (fname, m) # fs2
          \<and> (\<forall>kv \<in> set fs1. i_pc t \<notin> set (fn_pc (m_fn (snd kv))))
          \<and> i_pc t \<in> set (fn_pc (m_fn m))
          \<and> (if i_op t \<noteq> ''JUMPI'' then \<forall>l \<in> set (m_line m). i_pc t \<notin> set (ln_pc l)
              else \<forall>l \<in> set (m_line m). ln_jump l \<noteq> Some (i_pc t)) \<longrightarrow>
            record_instr gb r t nxt cm
              = Inr (cs1 @ (i_contractName t,
                       ss1 @ (i_source t, fs1 @ (fname, add_fn_tx r m) # fs2) # ss2) # cs2)
          \<and> record_trace gb r (t # ts) cm
              = record_trace gb r ts (cs1 @ (i_contractName t,
                       ss1 @ (i_source t, fs1 @ (fname, add_fn_tx r m) # fs2) # ss2) # cs2))"
proof (intro conjI impI)
  assume a: "\<forall>kv \<in> set fm. i_pc t \<notin> set (fn_pc (m_fn (snd kv)))"
  show i: "record_instr gb r t nxt cm = Inr (load_build gb (i_contractName t) cm)"
    using record_instr_found [OF assms(1-5)] record_source_none [OF a]
    by (simp add: assms(3))
  show "record_trace gb r (t # ts) cm
          = record_trace gb r ts (load_build gb (i_contractName t) cm)"
    using i assms(6) by simp
next
  assume a: "fm = fs1 @ (fname, m) # fs2
          \<and> (\<forall>kv \<in> set fs1. i_pc t \<notin> set (fn_pc (m_fn (snd kv))))
          \<and> i_pc t \<in> set (fn_pc (m_fn m))
          \<and> (if i_op t \<noteq> ''JUMPI'' then \<forall>l \<in> set (m_line m). i_pc t \<notin> set (ln_pc l)
              else \<forall>l \<in> set (m_line m). ln_jump l \<noteq> Some (i_pc t))"
  have "(if i_op t \<noteq> ''JUMPI''
         then update_first StopIteration (\<lambda>ln. i_pc t \<in> set (ln_pc ln))
                (record_hit r) (m_line m)
         else update_first StopIteration (\<lambda>ln. ln_jump ln = Some (i_pc t))
                (record_jump r (i_pc t) nxt) (m_line m)) = Inl StopIteration"
    using a by (simp add: update_first_none)
  then have f: "record_fn r t nxt m = Inr (add_fn_tx r m)"
    unfolding record_fn_def Let_def m_line_add_fn_tx by simp
  have s: "record_source r t nxt fm = Inr (fs1 @ (fname, add_fn_tx r m) # fs2)"
    using a record_source_found [of fs1 t m r nxt fname fs2] f by simp
  show i: "record_instr gb r t nxt cm
              = Inr (cs1 @ (i_contractName t,
                       ss1 @ (i_source t, fs1 @ (fname, add_fn_tx r m) # fs2) # ss2) # cs2)"
    using record_instr_found [OF assms(1-5)] s by simp
  show "record_trace gb r (t # ts) cm
              = record_trace gb r ts (cs1 @ (i_contractName t,
                       ss1 @ (i_source t, fs1 @ (fname, add_fn_tx r m) # fs2) # ss2) # cs2)"
    using i assms(6) by simp
qed

lemma lookup_failure_skipped_example:
  "record_instr ex_build 7 (ex_instr 999 ''PUSH1'') None [] = Inr [(''C'', ex_build ''C'')]
   \<and> record_trace ex_build 7 [ex_instr 999 ''PUSH1''] [] = Inr [(''C'', ex_build ''C'')]
   \<and> record_instr ex_build 7 (ex_instr 201 ''JUMPI'') None
        (ex_cm [ex_line [100, 101] None [] [] [], ex_line [199] (Some 200) [] [] []])
      = Inr (ex_cm [ex_line [100, 101] None [] [] [], ex_line [199] (Some 200) [] [] []])
   \<and> record_trace ex_build 7 [ex_instr 201 ''JUMPI'']
        (ex_cm [ex_line [100, 101] None [] [] [], ex_line [199] (Some 200) [] [] []])
      = Inr (ex_cm [ex_line [100, 101] None [] [] [], ex_line [199] (Some 200) [] [] []])"
proof -
  let ?a = "ex_line [100, 101] None [] [] []"
  let ?c = "ex_line [199] (Some 200) [] [] []"
  have 1: "record_instr ex_build 7 (ex_instr 999 ''PUSH1'') None [] = Inr [(''C'', ex_build ''C'')]
     \<and> record_trace ex_build 7 [ex_instr 999 ''PUSH1''] [] = Inr [(''C'', ex_build ''C'')]"
    using lookup_failure_skipped [where t = "ex_instr 999 ''PUSH1''" and gb = ex_build
        and cm = "[]" and ?cs1.0 = "[]" and ?ss1.0 = "[]" and fm = "snd (hd (ex_build ''C''))"
        and ?ss2.0 = "[]" and ?cs2.0 = "[]" and nxt = None and ts = "[]" and r = 7]
    by (simp add: ex_defs load_build_def)
  have 2: "record_instr ex_build 7 (ex_instr 201 ''JUMPI'') None (ex_cm [?a, ?c])
       = Inr (ex_cm [?a, ?c])
     \<and> record_trace ex_build 7 [ex_instr 201 ''JUMPI''] (ex_cm [?a, ?c]) = Inr (ex_cm [?a, ?c])"
    using lookup_failure_skipped [where t = "ex_instr 201 ''JUMPI''" and gb = ex_build
        and cm = "ex_cm [?a, ?c]" and ?cs1.0 = "[]" and ?ss1.0 = "[]"
        and fm = "[(''f'', ex_maps [?a, ?c])]" and ?ss2.0 = "[]" and ?cs2.0 = "[]"
        and nxt = None and ts = "[]" and r = 7 and ?fs1.0 = "[]" and fname = "''f''"
        and m = "ex_maps [?a, ?c]" and ?fs2.0 = "[]"]
    by (simp add: ex_defs ex_cm_def load_build_def add_fn_tx_def)
  from 1 2 show ?thesis by simp
qed

lemma record_hit_inv: "line_inv ln \<Longrightarrow> record_hit r ln = Inr ln' \<Longrightarrow> line_inv ln'"
  by (auto simp add: line_inv_def record_hit_def setdefault_runs_def hit_runs_def true_runs_def
      false_runs_def Let_def split: option.splits; blast)

lemma record_jump_inv: "line_inv ln \<Longrightarrow> record_jump r pc nxt ln = Inr ln' \<Longrightarrow> line_inv ln'"
  by (auto simp add: line_inv_def record_jump_def setdefault_runs_def hit_runs_def true_runs_def
      false_runs_def Let_def split: option.splits if_splits; blast)

lemma record_fn_inv:
  assumes "maps_inv m" "record_fn r t nxt m = Inr m'"
  shows "maps_inv m'"
proof (cases "i_op t \<noteq> ''JUMPI''")
  case True
  show ?thesis
  proof (cases "update_first StopIteration (\<lambda>ln. i_pc t \<in> set (ln_pc ln)) (record_hit r) (m_line m)")
    case (Inl e)
    with assms True show ?thesis
      by (auto simp add: record_fn_def add_fn_tx_def maps_inv_def split: error.splits)
  next
    case (Inr ls)
    from update_first_all [OF Inr, of line_inv] assms(1) have "list_all line_inv ls"
      by (auto simp add: maps_inv_def intro: record_hit_inv)
    with assms True Inr show ?thesis
      by (auto simp add: record_fn_def add_fn_tx_def maps_inv_def)
  qed
next
  case False
  show ?thesis
  proof (cases "update_first StopIteration (\<lambda>ln. ln_jump ln = Some (i_pc t))
                  (record_jump r (i_pc t) nxt) (m_line m)")
    case (Inl e)
    with assms False show ?thesis
      by (auto simp add: record_fn_def add_fn_tx_def maps_inv_def split: error.splits)
  next
    case (Inr ls)
    from update_first_all [OF Inr, of line_inv] assms(1) have "list_all line_inv ls"
      by (auto simp add: maps_inv_def intro: record_jump_inv)
    with assms False Inr show ?thesis
      by (auto simp add: record_fn_def add_fn_tx_def maps_inv_def)
  qed
qed

lemma on_value_inv:
  assumes "\<And>v v'. Q v \<Longrightarrow> f v = Inr v' \<Longrightarrow> Q v'"
  shows "Q (snd kv) \<Longrightarrow> on_value f kv = Inr kv' \<Longrightarrow> Q (snd kv')"
  by (auto simp add: on_value_def split: sum.splits intro: assms)

lemma record_source_inv:
  assumes "fn_map_inv fm" "record_source r t nxt fm = Inr fm'"
  shows "fn_map_inv fm'"
proof (cases "update_first StopIteration (\<lambda>kv. i_pc t \<in> set (fn_pc (m_fn (snd kv))))
                (on_value (record_fn r t nxt)) fm")
  case (Inl e)
  with assms show ?thesis
    by (auto simp add: record_source_def split: error.splits)
next
  case (Inr ys)
  have "list_all (\<lambda>kv. maps_inv (snd kv)) ys"
    by (rule update_first_all [OF Inr]) (use assms(1) in \<open>auto simp add: fn_map_inv_def
        elim: on_value_inv [rotated 1] intro: record_fn_inv\<close>)
  with assms Inr show ?thesis
    by (simp add: record_source_def fn_map_inv_def)
qed

lemma record_contract_inv:
  assumes "contract_inv c" "record_contract r t nxt c = Inr c'"
  shows "contract_inv c'"
  unfolding contract_inv_def
  by (rule update_first_all [OF assms(2) [unfolded record_contract_def]])
     (use assms(1) in \<open>auto simp add: contract_inv_def
        elim: on_value_inv [rotated 1] intro: record_source_inv\<close>)

lemma load_build_inv:
  "contract_inv (gb name) \<Longrightarrow> coverage_inv cm \<Longrightarrow> coverage_inv (load_build gb name cm)"
  by (simp add: load_build_def coverage_inv_def)

lemma record_instr_inv:
  assumes "\<And>name. contract_inv (gb name)" "coverage_inv cm" "record_instr gb r t nxt cm = Inr cm'"
  shows "coverage_inv cm'"
proof (cases "i_contractName t = [] \<or> i_source t = []")
  case True
  with assms show ?thesis by (simp add: record_instr_def)
next
  case False
  with assms(3) have u: "update_first KeyError (\<lambda>kv. fst kv = i_contractName t)
             (on_value (record_contract r t nxt))
             (load_build gb (i_contractName t) cm) = Inr cm'"
    by (simp add: record_instr_def)
  show ?thesis
    unfolding coverage_inv_def
    by (rule update_first_all [OF u])
       (use load_build_inv [OF assms(1) assms(2)] in \<open>auto simp add: coverage_inv_def
        elim: on_value_inv [rotated 1] intro: record_contract_inv\<close>)
qed

lemma record_trace_inv:
  assumes "\<And>name. contract_inv (gb name)"
  shows "coverage_inv cm \<Longrightarrow> record_trace gb r ts cm = Inr cm' \<Longrightarrow> coverage_inv cm'"
proof (induction ts arbitrary: cm)
  case Nil
  then show ?case by simp
next
  case (Cons t ts)
  then show ?case
    by (auto split: sum.splits dest: record_instr_inv [OF assms, rotated 1])
qed

lemma record_history_inv:
  assumes "\<And>name. contract_inv (gb name)"
  shows "coverage_inv cm \<Longrightarrow> record_history gb h cm = Inr cm' \<Longrightarrow> coverage_inv cm'"
proof (induction h arbitrary: cm)
  case Nil
  then show ?case by simp
next
  case (Cons x h)
  then show ?case
    by (auto simp add: record_tx_def split: sum.splits if_splits
        dest: record_trace_inv [OF assms, rotated 1])
qed

text \<open>
  Claim C5. When the coverage maps the loader supplies satisfy the invariant (every run
  of \<open>true_runs\<close> or \<open>false_runs\<close> of a line is in its \<open>hit_runs\<close>), every recording step
  for one instruction preserves it, and so does the recording of a whole history.
\<close>

theorem outcome_after_hit:
  assumes "\<forall>name. contract_inv (gb name)" and "coverage_inv cm"
  shows "(record_instr gb r t nxt cm = Inr cm' \<longrightarrow> coverage_inv cm')
       \<and> (record_history gb h cm = Inr cm'' \<longrightarrow> coverage_inv cm'')"
  using assms record_instr_inv [of gb cm r t nxt cm'] record_history_inv [of gb cm h cm'']
  by blast

theorem outcome_after_hit_witness:
  "(\<forall>name. contract_inv (ex_build name))
   \<and> coverage_inv ([] :: nat coverage_map)
   \<and> record_instr ex_build 7 (ex_instr 100 ''PUSH1'') (Some 199) []
      = Inr [(''C'', [(''C.sol'', [(''f'',
           ex_maps [ex_line [100, 101] None [7] [] [],
                    \<lparr>ln_pc = [199], ln_jump = Some 200, ln_runs = None\<rparr>])])])]
   \<and> coverage_inv [(''C'', [(''C.sol'', [(''f'',
           ex_maps [ex_line [100, 101] None [7] [] [],
                    \<lparr>ln_pc = [199], ln_jump = Some 200, ln_runs = None\<rparr>])])])]
   \<and> record_history ex_build [ex_tx] []
      = Inr (ex_cm [ex_line [100, 101] None [7] [] [], ex_line [199] (Some 200) [7] [7] []])
   \<and> coverage_inv (ex_cm [ex_line [100, 101] None [7] [] [], ex_line [199] (Some 200) [7] [7] []])"
proof -
  let ?s1 = "[(''C'', [(''C.sol'', [(''f'',
           ex_maps [ex_line [100, 101] None [7] [] [],
                    \<lparr>ln_pc = [199], ln_jump = Some 200, ln_runs = None\<rparr>])])])]"
  let ?s2 = "ex_cm [ex_line [100, 101] None [7] [] [], ex_line [199] (Some 200) [7] [7] []]"
  have g: "\<forall>name. contract_inv (ex_build name)"
    by (simp add: ex_defs contract_inv_def fn_map_inv_def maps_inv_def line_inv_def
        hit_runs_def true_runs_def false_runs_def)
  have e: "coverage_inv ([] :: nat coverage_map)"
    by (simp add: coverage_inv_def)
  have i: "record_instr ex_build 7 (ex_instr 100 ''PUSH1'') (Some 199) [] = Inr ?s1"
    by (simp add: ex_defs rec_defs)
  have h: "record_history ex_build [ex_tx] [] = Inr ?s2"
    by (simp add: ex_defs ex_cm_def rec_defs)
  from outcome_after_hit [OF g e, of 7 "ex_instr 100 ''PUSH1''" "Some 199" ?s1 "[ex_tx]" ?s2] i h
  have "coverage_inv ?s1" "coverage_inv ?s2" by simp_all
  with g e i h show ?thesis by simp
qed

subsection \<open>Evaluator\<close>

lemma round2_two_thirds: "round2 (true_div 2 3) = 67 / 100"
  by code_simp

lemma round2_one_third: "round2 (true_div 1 3) = 33 / 100"
  by code_simp

text \<open>
  Quotients that are ties as rationals and no ties as doubles: \<open>round(1 / 40, 2)\<close> is
  \<open>0.03\<close> and \<open>round(3 / 40, 2)\<close> is \<open>0.07\<close>; \<open>1 / 8\<close> is a tie as a double too and goes to
  the even hundredth \<open>0.12\<close>.
\<close>

lemma round2_ties:
  "round2 (true_div 1 40) = 3 / 100" "round2 (true_div 3 40) = 7 / 100"
  "round2 (true_div 1 8) = 12 / 100"
  by code_simp+

lemma count_line_count: "c_count (count_line ln) = fcard (hit_runs ln)"
  by (simp add: count_line_def hit_runs_def split: option.splits)

text \<open>
  Claim C2. A function of exactly two lines, line 0 without jump and line 1 with one,
  of total weight 3, after one run \<open>r\<close> that hit line 0 and line 1 and saw only the true
  outcome of the jump of line 1, evaluates to
  \<open>{'line': {0}, 'true': {1}, 'false': {}, 'pct': 0.67}\<close>.
\<close>

theorem two_line_example:
  assumes "m_line m = [a, b]"
    and "\<not> truthy_pc (ln_jump a)" "truthy_pc (ln_jump b)" "m_total m = 3"
    and "fn_tx (m_fn m) = Some {|r|}"
    and "ln_runs a = Some \<lparr>runs_tx = {|r|}, runs_true = {||}, runs_false = {||}\<rparr>"
    and "ln_runs b = Some \<lparr>runs_tx = {|r|}, runs_true = {|r|}, runs_false = {||}\<rparr>"
  shows "eval_fn m = Inr (Coverage {0} {1} {} (67 / 100))"
  using assms
  by (simp add: eval_fn_def count_line_def score_line_def truthy_jump_def round2_two_thirds)

text \<open>
  The recorder produces such a function from the example trace, and the evaluator
  gives the result of the claim on it.
\<close>

theorem two_line_example_witness:
  "record_history ex_build [ex_tx] []
     = Inr [(''C'', [(''C.sol'', [(''f'',
         ex_maps [ex_line [100, 101] None [7] [] [], ex_line [199] (Some 200) [7] [7] []])])])]
   \<and> eval_fn (ex_maps [ex_line [100, 101] None [7] [] [], ex_line [199] (Some 200) [7] [7] []])
     = Inr (Coverage {0} {1} {} (67 / 100))"
proof -
  let ?m = "ex_maps [ex_line [100, 101] None [7] [] [], ex_line [199] (Some 200) [7] [7] []]"
  have "record_history ex_build [ex_tx] [] = Inr [(''C'', [(''C.sol'', [(''f'', ?m)])])]"
    by (simp add: ex_defs rec_defs)
  moreover have "eval_fn ?m = Inr (Coverage {0} {1} {} (67 / 100))"
    using two_line_example [of ?m "ex_line [100, 101] None [7] [] []"
        "ex_line [199] (Some 200) [7] [7] []" 7]
    by (simp add: ex_defs truthy_pc_def)
  ultimately show ?thesis by simp
qed

lemma score_line_observed:
  assumes "observed ln"
  shows "score_line c (count_line ln) (cnt, l, t, f) = Inr (cnt + weight ln, insert c l, t, f)"
  using assms
  by (cases "ln_runs ln"; cases "truthy_pc (ln_jump ln)")
     (simp_all add: observed_def weight_def score_line_def count_line_def truthy_jump_def
        hit_runs_def true_runs_def false_runs_def)

lemma score_lines_observed:
  assumes "list_all observed ls"
  shows "score_lines c (map count_line ls) (cnt, l, t, f)
       = Inr (cnt + sum_list (map weight ls), l \<union> {c ..< c + length ls}, t, f)"
  using assms
proof (induction ls arbitrary: c cnt l)
  case Nil
  then show ?case by simp
next
  case (Cons ln ls)
  have "insert c l \<union> {Suc c ..< Suc c + length ls} = l \<union> {c ..< c + length (ln # ls)}"
    by auto
  with Cons show ?case
    by (simp add: score_line_observed add.assoc)
qed

lemma all_observed_collapse:
  assumes "fn_tx (m_fn m) = Some s" "s \<noteq> {||}" "m_line m \<noteq> []"
    and "list_all observed (m_line m)"
    and "m_total m = sum_list (map weight (m_line m))"
  shows "eval_fn m = Inr (Pct 1)"
proof -
  obtain ln ls where l: "m_line m = ln # ls" using assms(3) by (cases "m_line m") auto
  have "c_count (count_line ln) \<noteq> 0"
    using assms(4) l by (simp add: count_line_count observed_def)
  then have ne: "filter (\<lambda>i. c_count i \<noteq> 0) (map count_line (m_line m)) \<noteq> []"
    using l by simp
  have "0 < weight x" for x :: "'a line_rec" by (simp add: weight_def)
  then have "0 < sum_list (map weight (ln # ls))"
    by (induction ls) (auto simp add: weight_def)
  then have "m_total m \<noteq> 0" using assms(5) l by simp
  with ne assms(1,2,5) score_lines_observed [OF assms(4), of 0 0 "{}" "{}" "{}"]
  show ?thesis
    by (simp add: eval_fn_def Let_def)
qed

text \<open>
  Claim C6. When the evaluator reaches the comparison of line 159 (the function item
  has a transaction, some line has a hit, the division of line 158 is defined) and the
  accumulated score equals \<open>total\<close>, the result of the function is exactly \<open>{'pct': 1}\<close>.
  This is so when every line of the function is observed and \<open>total\<close> is the sum of the
  weights of its lines.
\<close>

theorem full_coverage_collapse:
  assumes "fn_tx (m_fn m) = Some s" "s \<noteq> {||}"
  shows "((\<exists>ln \<in> set (m_line m). hit_runs ln \<noteq> {||})
          \<and> score_lines 0 (map count_line (m_line m)) (0, {}, {}, {}) = Inr (cnt, l, t, f)
          \<and> m_total m \<noteq> 0 \<and> cnt = m_total m
          \<longrightarrow> eval_fn m = Inr (Pct 1))
       \<and> (m_line m \<noteq> [] \<and> list_all observed (m_line m)
          \<and> m_total m = sum_list (map weight (m_line m))
          \<longrightarrow> eval_fn m = Inr (Pct 1))"
proof (intro conjI impI)
  assume a: "(\<exists>ln \<in> set (m_line m). hit_runs ln \<noteq> {||})
          \<and> score_lines 0 (map count_line (m_line m)) (0, {}, {}, {}) = Inr (cnt, l, t, f)
          \<and> m_total m \<noteq> 0 \<and> cnt = m_total m"
  then have "filter (\<lambda>i. c_count i \<noteq> 0) (map count_line (m_line m)) \<noteq> []"
    by (auto simp add: filter_empty_conv count_line_count)
  then show "eval_fn m = Inr (Pct 1)"
    using assms a by (simp add: eval_fn_def Let_def)
next
  assume "m_line m \<noteq> [] \<and> list_all observed (m_line m)
          \<and> m_total m = sum_list (map weight (m_line m))"
  with assms show "eval_fn m = Inr (Pct 1)"
    by (simp add: all_observed_collapse)
qed

theorem full_coverage_collapse_witness:
  "fn_tx (m_fn (ex_maps [ex_line [100, 101] None [7] [] [], ex_line [199] (Some 200) [7, 8] [7] [8]])) = Some {|7|}
   \<and> {|7::nat|} \<noteq> {||}
   \<and> (\<exists>ln \<in> set (m_line (ex_maps [ex_line [100, 101] None [7] [] [], ex_line [199] (Some 200) [7, 8] [7] [8]])). hit_runs ln \<noteq> {||})
   \<and> score_lines 0 (map count_line (m_line (ex_maps [ex_line [100, 101] None [7] [] [], ex_line [199] (Some 200) [7, 8] [7] [8]])))
         (0, {}, {}, {}) = Inr (3, {0, 1}, {}, {})
   \<and> m_total (ex_maps [ex_line [100, 101] None [7] [] [], ex_line [199] (Some 200) [7, 8] [7] [8]]) = 3
   \<and> list_all observed (m_line (ex_maps [ex_line [100, 101] None [7] [] [], ex_line [199] (Some 200) [7, 8] [7] [8]]))
   \<and> sum_list (map weight (m_line (ex_maps [ex_line [100, 101] None [7] [] [], ex_line [199] (Some 200) [7, 8] [7] [8]]))) = 3
   \<and> eval_fn (ex_maps [ex_line [100, 101] None [7] [] [], ex_line [199] (Some 200) [7, 8] [7] [8]]) = Inr (Pct 1)"
proof -
  let ?m = "ex_maps [ex_line [100, 101] None [7] [] [], ex_line [199] (Some 200) [7, 8] [7] [8]]"
  have a: "fn_tx (m_fn ?m) = Some {|7|}" by (simp add: ex_defs)
  have b: "{|7::nat|} \<noteq> {||}" by simp
  have c: "\<exists>ln \<in> set (m_line ?m). hit_runs ln \<noteq> {||}" by (simp add: ex_defs hit_runs_def)
  have d: "score_lines 0 (map count_line (m_line ?m)) (0, {}, {}, {}) = Inr (3, {0, 1}, {}, {})"
    by (simp add: ex_defs eval_defs insert_commute)
  have e: "m_total ?m \<noteq> 0" "m_total ?m = 3" by (simp_all add: ex_defs)
  have f: "list_all observed (m_line ?m)"
    by (simp add: ex_defs observed_def truthy_pc_def hit_runs_def true_runs_def false_runs_def)
  have g: "sum_list (map weight (m_line ?m)) = 3"
    by (simp add: ex_defs weight_def truthy_pc_def)
  from full_coverage_collapse [OF a b, of 3 "{0, 1}" "{}" "{}"] c d e
  have "eval_fn ?m = Inr (Pct 1)" by simp
  with a b c d e f g show ?thesis by simp
qed

text \<open>
  Claim C7. A function all of whose line records have an empty \<open>hit_runs\<close> evaluates to
  exactly \<open>{'pct': 0}\<close>, whatever the run set of the function item holds.
\<close>

theorem zero_coverage:
  assumes "\<forall>ln \<in> set (m_line m). hit_runs ln = {||}"
  shows "eval_fn m = Inr (Pct 0)"
proof -
  have "filter (\<lambda>i. c_count i \<noteq> 0) (map count_line (m_line m)) = []"
    using assms by (simp add: filter_empty_conv count_line_count)
  then show ?thesis
    by (simp add: eval_fn_def Let_def)
qed

theorem zero_coverage_witness:
  "hit_runs \<lparr>ln_pc = [100], ln_jump = None, ln_runs = None :: nat runs option\<rparr> = {||}
   \<and> hit_runs (ex_line [199] (Some 200) [] [] []) = {||}
   \<and> fn_tx (m_fn (ex_maps [\<lparr>ln_pc = [100], ln_jump = None, ln_runs = None\<rparr>,
                            ex_line [199] (Some 200) [] [] []])) = Some {|7|}
   \<and> eval_fn (ex_maps [\<lparr>ln_pc = [100], ln_jump = None, ln_runs = None\<rparr>,
                       ex_line [199] (Some 200) [] [] []]) = Inr (Pct 0)"
  using zero_coverage [of "ex_maps [\<lparr>ln_pc = [100], ln_jump = None, ln_runs = None\<rparr>,
                                    ex_line [199] (Some 200) [] [] []]"]
  by (simp add: ex_defs hit_runs_def)

lemma score_line_sets:
  "score_line c i (n, l, t, f) = Inr (n', l', t', f') \<Longrightarrow> k \<noteq> c \<Longrightarrow>
   (k \<in> l' \<longleftrightarrow> k \<in> l) \<and> (k \<in> t' \<longleftrightarrow> k \<in> t) \<and> (k \<in> f' \<longleftrightarrow> k \<in> f)"
  by (auto simp add: score_line_def split: if_splits jump_value.splits)

lemma score_lines_sets:
  "score_lines c ls (n, l, t, f) = Inr (n', l', t', f') \<Longrightarrow>
   k < c \<or> (c \<le> k \<and> k < c + length ls \<and> (\<forall>acc. score_line k (ls ! (k - c)) acc = Inr acc)) \<Longrightarrow>
   (k \<in> l' \<longleftrightarrow> k \<in> l) \<and> (k \<in> t' \<longleftrightarrow> k \<in> t) \<and> (k \<in> f' \<longleftrightarrow> k \<in> f)"
proof (induction ls arbitrary: c n l t f)
  case Nil
  then show ?case by simp
next
  case (Cons i ls)
  from Cons.prems(1) obtain n1 l1 t1 f1 where
    step: "score_line c i (n, l, t, f) = Inr (n1, l1, t1, f1)"
    and rest: "score_lines (Suc c) ls (n1, l1, t1, f1) = Inr (n', l', t', f')"
    by (auto split: sum.splits)
  show ?case
  proof (cases "k = c")
    case True
    with Cons.prems(2) have "score_line c i (n, l, t, f) = Inr (n, l, t, f)"
      by auto
    with step have "l1 = l" "t1 = t" "f1 = f" by simp_all
    moreover have "(k \<in> l' \<longleftrightarrow> k \<in> l1) \<and> (k \<in> t' \<longleftrightarrow> k \<in> t1) \<and> (k \<in> f' \<longleftrightarrow> k \<in> f1)"
      using Cons.IH [OF rest] True by simp
    ultimately show ?thesis by simp
  next
    case False
    have a: "(k \<in> l1 \<longleftrightarrow> k \<in> l) \<and> (k \<in> t1 \<longleftrightarrow> k \<in> t) \<and> (k \<in> f1 \<longleftrightarrow> k \<in> f)"
      using score_line_sets [OF step False] .
    have "k < Suc c \<or> (Suc c \<le> k \<and> k < Suc c + length ls \<and>
            (\<forall>acc. score_line k (ls ! (k - Suc c)) acc = Inr acc))"
      using Cons.prems(2) False by (auto simp add: nth_Cons')
    from Cons.IH [OF rest this] a show ?thesis by simp
  qed
qed

lemma no_outcome_score:
  assumes "truthy_pc (ln_jump ln)" "hit_runs ln \<noteq> {||}" "true_runs ln = {||}" "false_runs ln = {||}"
  shows "score_line c (count_line ln) acc = Inr acc"
  using assms
  by (cases acc) (auto simp add: score_line_def count_line_def hit_runs_def true_runs_def
      false_runs_def truthy_jump_def split: option.splits)

text \<open>
  Claim C10. A line with a jump (its \<open>'jump'\<close> is truthy, the test of line 136) whose
  \<open>hit_runs\<close> is not empty and whose \<open>true_runs\<close> and \<open>false_runs\<close> are empty counts as hit,
  leaves the score and the three sets as they are in the loop of line 145, and its
  index is in none of the sets \<open>line\<close>, \<open>true\<close>, \<open>false\<close> of the result of its function.
\<close>

theorem branch_without_outcome:
  assumes "truthy_pc (ln_jump ln)" "hit_runs ln \<noteq> {||}" "true_runs ln = {||}" "false_runs ln = {||}"
  shows "c_count (count_line ln) \<noteq> 0 \<and>
         score_line c (count_line ln) (cnt, l, t, f) = Inr (cnt, l, t, f) \<and>
         (c < length (m_line m) \<and> m_line m ! c = ln \<and> eval_fn m = Inr (Coverage l' t' f' p)
            \<longrightarrow> c \<notin> l' \<and> c \<notin> t' \<and> c \<notin> f')"
proof (intro conjI impI)
  show "c_count (count_line ln) \<noteq> 0"
    using assms(2) by (simp add: count_line_count)
  show "score_line c (count_line ln) (cnt, l, t, f) = Inr (cnt, l, t, f)"
    using assms by (rule no_outcome_score)
next
  assume a: "c < length (m_line m) \<and> m_line m ! c = ln \<and> eval_fn m = Inr (Coverage l' t' f' p)"
  then obtain n where s: "score_lines 0 (map count_line (m_line m)) (0, {}, {}, {}) = Inr (n, l', t', f')"
    by (auto simp add: eval_fn_def Let_def split: if_splits sum.splits option.splits)
  have "\<forall>acc. score_line c (map count_line (m_line m) ! (c - 0)) acc = Inr acc"
    using a no_outcome_score [OF assms] by simp
  with a have "c < 0 \<or> (0 \<le> c \<and> c < 0 + length (map count_line (m_line m)) \<and>
      (\<forall>acc. score_line c (map count_line (m_line m) ! (c - 0)) acc = Inr acc))"
    by simp
  from score_lines_sets [OF s this]
  have r: "(c \<in> l' \<longleftrightarrow> c \<in> {}) \<and> (c \<in> t' \<longleftrightarrow> c \<in> {}) \<and> (c \<in> f' \<longleftrightarrow> c \<in> {})" .
  from r show "c \<notin> l'" by simp
  from r show "c \<notin> t'" by simp
  from r show "c \<notin> f'" by simp
qed

theorem branch_without_outcome_witness:
  "truthy_pc (ln_jump (ex_line [199] (Some 200) [7] [] []))
   \<and> hit_runs (ex_line [199] (Some 200) [7] [] []) \<noteq> {||}
   \<and> true_runs (ex_line [199] (Some 200) [7] [] []) = {||}
   \<and> false_runs (ex_line [199] (Some 200) [7] [] []) = {||}
   \<and> score_line 1 (count_line (ex_line [199] (Some 200) [7] [] [])) (1, {0}, {}, {}) = Inr (1, {0}, {}, {})
   \<and> eval_fn (ex_maps [ex_line [100, 101] None [7] [] [], ex_line [199] (Some 200) [7] [] []])
       = Inr (Coverage {0} {} {} (33 / 100))
   \<and> (1::nat) \<notin> {0}"
proof -
  let ?ln = "ex_line [199] (Some 200) [7] [] []"
  let ?m = "ex_maps [ex_line [100, 101] None [7] [] [], ?ln]"
  have a: "truthy_pc (ln_jump ?ln)" by (simp add: ex_defs truthy_pc_def)
  have b: "hit_runs ?ln \<noteq> {||}" by (simp add: ex_defs hit_runs_def)
  have c: "true_runs ?ln = {||}" by (simp add: ex_defs true_runs_def)
  have d: "false_runs ?ln = {||}" by (simp add: ex_defs false_runs_def)
  have e: "eval_fn ?m = Inr (Coverage {0} {} {} (33 / 100))"
    by (simp add: ex_defs eval_defs round2_one_third)
  have f: "1 < length (m_line ?m) \<and> m_line ?m ! 1 = ?ln" by (simp add: ex_defs)
  from branch_without_outcome [OF a b c d, of 1 1 "{0}" "{}" "{}" ?m "{0}" "{}" "{}" "33 / 100"] a b c d e f
  show ?thesis by simp
qed

subsection \<open>Order of the runs\<close>

lemma ok_simps [simp]: "ok (Inl e) = None" "ok (Inr a) = Some a"
  by (simp_all add: ok_def)

lemma ok_update_first: "ok (update_first e P f xs) = oupd True P (\<lambda>x. ok (f x)) xs"
proof (induction xs)
  case Nil
  then show ?case by simp
next
  case (Cons x xs)
  from Cons [symmetric] show ?case
    by (cases "f x"; cases "update_first e P f xs") simp_all
qed

lemma update_first_stop:
  assumes "\<And>x. f x \<noteq> Inl StopIteration"
  shows "update_first StopIteration P f xs = Inl StopIteration \<longleftrightarrow> (\<forall>x \<in> set xs. \<not> P x)"
  using assms by (induction xs) (auto split: sum.splits)

lemma ok_try_first:
  assumes "\<And>x. f x \<noteq> Inl StopIteration"
  shows "ok (case update_first StopIteration P f xs of
               Inl StopIteration \<Rightarrow> Inr xs | Inl e \<Rightarrow> Inl e | Inr ys \<Rightarrow> Inr ys)
         = oupd False P (\<lambda>x. ok (f x)) xs"
proof (induction xs)
  case Nil
  then show ?case by simp
next
  case (Cons x xs)
  show ?case
  proof (cases "P x")
    case True
    then show ?thesis
      using assms [of x] by (simp split: sum.splits error.splits)
  next
    case False
    show ?thesis
    proof (cases "update_first StopIteration P f xs")
      case (Inl e)
      with Cons [symmetric] False show ?thesis by (cases e) simp_all
    next
      case (Inr ys)
      with Cons [symmetric] False show ?thesis by simp
    qed
  qed
qed

lemma oupd_commute:
  assumes pf: "\<And>x y. f x = Some y \<Longrightarrow> P y = P x \<and> Q y = Q x"
    and pg: "\<And>x y. g x = Some y \<Longrightarrow> P y = P x \<and> Q y = Q x"
    and c: "kcomm f g"
  shows "kcomm (oupd s P f) (oupd s' Q g)"
  unfolding kcomm_def
proof
  fix xs
  show "Option.bind (oupd s P f xs) (oupd s' Q g) = Option.bind (oupd s' Q g xs) (oupd s P f)"
  proof (induction xs)
    case Nil
    then show ?case by simp
  next
    case (Cons x xs)
    show ?case
    proof (cases "P x")
      case Px: True
      show ?thesis
      proof (cases "Q x")
        case Qx: True
        have "Option.bind (f x) g = Option.bind (g x) f"
          using c by (simp add: kcomm_def)
        then have "map_option (\<lambda>y. y # xs) (Option.bind (f x) g)
                 = map_option (\<lambda>y. y # xs) (Option.bind (g x) f)"
          by simp
        moreover have "Option.bind (oupd s P f (x # xs)) (oupd s' Q g)
                 = map_option (\<lambda>y. y # xs) (Option.bind (f x) g)"
          using Px Qx pf [of x] by (cases "f x") simp_all
        moreover have "Option.bind (oupd s' Q g (x # xs)) (oupd s P f)
                 = map_option (\<lambda>y. y # xs) (Option.bind (g x) f)"
          using Px Qx pg [of x] by (cases "g x") simp_all
        ultimately show ?thesis by simp
      next
        case Qx: False
        have "Option.bind (oupd s P f (x # xs)) (oupd s' Q g)
            = Option.bind (f x) (\<lambda>y. map_option ((#) y) (oupd s' Q g xs))"
          using Px Qx pf [of x] by (cases "f x") simp_all
        moreover have "Option.bind (oupd s' Q g (x # xs)) (oupd s P f)
            = Option.bind (oupd s' Q g xs) (\<lambda>ys. map_option (\<lambda>y. y # ys) (f x))"
          using Px Qx by (cases "oupd s' Q g xs") simp_all
        ultimately show ?thesis
          by (cases "f x"; cases "oupd s' Q g xs") simp_all
      qed
    next
      case Px: False
      show ?thesis
      proof (cases "Q x")
        case Qx: True
        have "Option.bind (oupd s' Q g (x # xs)) (oupd s P f)
            = Option.bind (g x) (\<lambda>y. map_option ((#) y) (oupd s P f xs))"
          using Px Qx pg [of x] by (cases "g x") simp_all
        moreover have "Option.bind (oupd s P f (x # xs)) (oupd s' Q g)
            = Option.bind (oupd s P f xs) (\<lambda>ys. map_option (\<lambda>y. y # ys) (g x))"
          using Px Qx by (cases "oupd s P f xs") simp_all
        ultimately show ?thesis
          by (cases "g x"; cases "oupd s P f xs") simp_all
      next
        case Qx: False
        have "Option.bind (oupd s P f (x # xs)) (oupd s' Q g)
            = map_option ((#) x) (Option.bind (oupd s P f xs) (oupd s' Q g))"
          using Px Qx by (cases "oupd s P f xs") simp_all
        moreover have "Option.bind (oupd s' Q g (x # xs)) (oupd s P f)
            = map_option ((#) x) (Option.bind (oupd s' Q g xs) (oupd s P f))"
          using Px Qx by (cases "oupd s' Q g xs") simp_all
        ultimately show ?thesis
          using Cons.IH by simp
      qed
    qed
  qed
qed

lemma kcomm_sym: "kcomm f g \<Longrightarrow> kcomm g f"
  by (simp add: kcomm_def)

lemma kcomm_kfold:
  assumes "\<forall>g \<in> set gs. kcomm f g"
  shows "kcomm f (kfold gs)"
  using assms
proof (induction gs)
  case Nil
  then show ?case by (simp add: kcomm_def)
next
  case (Cons g gs)
  then have fg: "kcomm f g" and fgs: "kcomm f (kfold gs)" by simp_all
  show ?case
    unfolding kcomm_def
  proof
    fix x
    have "Option.bind (f x) (kfold (g # gs)) = Option.bind (Option.bind (f x) g) (kfold gs)"
      by (cases "f x") simp_all
    also have "\<dots> = Option.bind (Option.bind (g x) f) (kfold gs)"
      using fg by (simp add: kcomm_def)
    also have "\<dots> = Option.bind (g x) (\<lambda>y. Option.bind (f y) (kfold gs))"
      by (cases "g x") simp_all
    also have "\<dots> = Option.bind (g x) (\<lambda>y. Option.bind (kfold gs y) f)"
      using fgs by (simp add: kcomm_def)
    also have "\<dots> = Option.bind (kfold (g # gs) x) f"
      by (cases "g x") simp_all
    finally show "Option.bind (f x) (kfold (g # gs)) = Option.bind (kfold (g # gs) x) f" .
  qed
qed

lemma kfold_kcomm:
  assumes "\<forall>f \<in> set fs. \<forall>g \<in> set gs. kcomm f g"
  shows "kcomm (kfold fs) (kfold gs)"
proof -
  have "\<forall>f \<in> set fs. kcomm (kfold gs) f"
  proof
    fix f assume "f \<in> set fs"
    with assms have "\<forall>g \<in> set gs. kcomm f g" by simp
    then have "kcomm f (kfold gs)" by (rule kcomm_kfold)
    then show "kcomm (kfold gs) f" by (rule kcomm_sym)
  qed
  then have "kcomm (kfold gs) (kfold fs)" by (rule kcomm_kfold)
  then show ?thesis by (rule kcomm_sym)
qed

lemma kcomm_on_value:
  assumes "kcomm (\<lambda>v. ok (f v)) (\<lambda>v. ok (g v))"
  shows "kcomm (\<lambda>kv. ok (on_value f kv)) (\<lambda>kv. ok (on_value g kv))"
  unfolding kcomm_def
proof
  fix kv :: "'b \<times> 'a"
  have c: "Option.bind (ok (f (snd kv))) (\<lambda>v. ok (g v)) = Option.bind (ok (g (snd kv))) (\<lambda>v. ok (f v))"
    using assms by (simp add: kcomm_def)
  have "Option.bind (ok (on_value f kv)) (\<lambda>kv. ok (on_value g kv))
      = map_option (Pair (fst kv)) (Option.bind (ok (f (snd kv))) (\<lambda>v. ok (g v)))"
    by (cases "f (snd kv)") (simp_all add: on_value_def ok_def split: sum.splits)
  moreover have "Option.bind (ok (on_value g kv)) (\<lambda>kv. ok (on_value f kv))
      = map_option (Pair (fst kv)) (Option.bind (ok (g (snd kv))) (\<lambda>v. ok (f v)))"
    by (cases "g (snd kv)") (simp_all add: on_value_def ok_def split: sum.splits)
  ultimately show "Option.bind (ok (on_value f kv)) (\<lambda>kv. ok (on_value g kv))
      = Option.bind (ok (on_value g kv)) (\<lambda>kv. ok (on_value f kv))"
    using c by simp
qed

lemma on_value_fst: "ok (on_value f kv) = Some kv' \<Longrightarrow> fst kv' = fst kv"
  by (auto simp add: on_value_def ok_def split: sum.splits)

lemma on_value_snd: "ok (on_value f kv) = Some kv' \<Longrightarrow> f (snd kv) = Inr (snd kv')"
  by (auto simp add: on_value_def ok_def split: sum.splits)

lemma o_line_static:
  "o_line r t nxt x = Some y \<Longrightarrow> ln_pc y = ln_pc x \<and> ln_jump y = ln_jump x"
  by (auto simp add: o_line_def record_hit_sets record_jump_sets with_runs_def
      split: if_splits option.splits)

lemma with_runs_sets [simp]:
  "hit_runs (with_runs ln h t f) = h" "true_runs (with_runs ln h t f) = t"
  "false_runs (with_runs ln h t f) = f"
  by (simp_all add: with_runs_def hit_runs_def true_runs_def false_runs_def)

lemma with_runs_twice [simp]: "with_runs (with_runs ln h t f) h' t' f' = with_runs ln h' t' f'"
  by (simp add: with_runs_def)

lemma o_line_kcomm:
  assumes "r1 \<noteq> r2"
  shows "kcomm (o_line r1 a n1) (o_line r2 b n2)"
  unfolding kcomm_def
proof
  fix x :: "'a line_rec"
  show "Option.bind (o_line r1 a n1 x) (o_line r2 b n2)
      = Option.bind (o_line r2 b n2 x) (o_line r1 a n1)"
    using assms
    by (cases n1; cases n2)
       (auto simp add: o_line_def record_hit_sets record_jump_sets finsert_commute)
qed

lemma ok_record_fn:
  "ok (record_fn r t nxt m)
     = map_option (\<lambda>ls. (add_fn_tx r m)\<lparr>m_line := ls\<rparr>)
         (oupd False (p_line t) (o_line r t nxt) (m_line m))"
proof -
  have h: "record_hit r x \<noteq> Inl StopIteration" for x :: "'a line_rec"
    by (simp add: record_hit_def Let_def)
  have j: "record_jump r (i_pc t) nxt x \<noteq> Inl StopIteration" for x :: "'a line_rec"
    by (simp add: record_jump_def Let_def split: option.splits)
  have e: "(add_fn_tx r m)\<lparr>m_line := m_line m\<rparr> = add_fn_tx r m"
    by (simp add: add_fn_tx_def)
  show ?thesis
  proof (cases "i_op t \<noteq> ''JUMPI''")
    case True
    have p: "p_line t = (\<lambda>ln. i_pc t \<in> set (ln_pc ln))"
      and o: "o_line r t nxt = (\<lambda>x. ok (record_hit r x))"
      using True by (auto simp add: p_line_def o_line_def)
    show ?thesis
      using ok_try_first [where f = "record_hit r" and P = "\<lambda>ln. i_pc t \<in> set (ln_pc ln)"
          and xs = "m_line m", OF h, symmetric] True e
      unfolding p o
      by (cases "update_first StopIteration (\<lambda>ln. i_pc t \<in> set (ln_pc ln)) (record_hit r) (m_line m)")
         (auto simp add: record_fn_def Let_def m_line_add_fn_tx split: error.splits)
  next
    case False
    have p: "p_line t = (\<lambda>ln. ln_jump ln = Some (i_pc t))"
      and o: "o_line r t nxt = (\<lambda>x. ok (record_jump r (i_pc t) nxt x))"
      using False by (auto simp add: p_line_def o_line_def)
    show ?thesis
      using ok_try_first [where f = "record_jump r (i_pc t) nxt"
          and P = "\<lambda>ln. ln_jump ln = Some (i_pc t)" and xs = "m_line m", OF j, symmetric] False e
      unfolding p o
      by (cases "update_first StopIteration (\<lambda>ln. ln_jump ln = Some (i_pc t)) (record_jump r (i_pc t) nxt) (m_line m)")
         (auto simp add: record_fn_def Let_def m_line_add_fn_tx split: error.splits)
  qed
qed

lemma add_fn_tx_commute: "add_fn_tx r1 (add_fn_tx r2 m) = add_fn_tx r2 (add_fn_tx r1 m)"
  by (simp add: add_fn_tx_def finsert_commute)

lemma add_fn_tx_line: "add_fn_tx r (m\<lparr>m_line := ls\<rparr>) = (add_fn_tx r m)\<lparr>m_line := ls\<rparr>"
  by (simp add: add_fn_tx_def)

lemma record_fn_kcomm:
  assumes "r1 \<noteq> r2"
  shows "kcomm (\<lambda>m. ok (record_fn r1 a n1 m)) (\<lambda>m. ok (record_fn r2 b n2 m))"
  unfolding kcomm_def
proof
  fix m :: "'a maps"
  let ?U1 = "oupd False (p_line a) (o_line r1 a n1)"
  let ?U2 = "oupd False (p_line b) (o_line r2 b n2)"
  have st1: "\<And>x y. o_line r1 a n1 x = Some y \<Longrightarrow> p_line a y = p_line a x \<and> p_line b y = p_line b x"
    by (auto simp add: p_line_def dest: o_line_static)
  have st2: "\<And>x y. o_line r2 b n2 x = Some y \<Longrightarrow> p_line a y = p_line a x \<and> p_line b y = p_line b x"
    by (auto simp add: p_line_def dest: o_line_static)
  have "kcomm ?U1 ?U2"
    using st1 st2 o_line_kcomm [OF assms] by (rule oupd_commute)
  then have u: "Option.bind (?U1 (m_line m)) ?U2 = Option.bind (?U2 (m_line m)) ?U1"
    by (simp add: kcomm_def)
  have l: "Option.bind (ok (record_fn r1 a n1 m)) (\<lambda>m. ok (record_fn r2 b n2 m))
      = map_option (\<lambda>ls. (add_fn_tx r2 (add_fn_tx r1 m))\<lparr>m_line := ls\<rparr>)
          (Option.bind (?U1 (m_line m)) ?U2)"
    by (cases "?U1 (m_line m)")
       (simp_all add: ok_record_fn m_line_add_fn_tx add_fn_tx_line)
  have r: "Option.bind (ok (record_fn r2 b n2 m)) (\<lambda>m. ok (record_fn r1 a n1 m))
      = map_option (\<lambda>ls. (add_fn_tx r1 (add_fn_tx r2 m))\<lparr>m_line := ls\<rparr>)
          (Option.bind (?U2 (m_line m)) ?U1)"
    by (cases "?U2 (m_line m)")
       (simp_all add: ok_record_fn m_line_add_fn_tx add_fn_tx_line)
  show "Option.bind (ok (record_fn r1 a n1 m)) (\<lambda>m. ok (record_fn r2 b n2 m))
      = Option.bind (ok (record_fn r2 b n2 m)) (\<lambda>m. ok (record_fn r1 a n1 m))"
    unfolding l r u add_fn_tx_commute [of r1 r2] ..
qed

lemma record_fn_static: "record_fn r t nxt m = Inr m' \<Longrightarrow> fn_pc (m_fn m') = fn_pc (m_fn m)"
  by (auto simp add: record_fn_def Let_def add_fn_tx_def split: sum.splits error.splits)

lemma on_value_no_stop:
  "(\<And>v. f v \<noteq> Inl StopIteration) \<Longrightarrow> on_value f kv \<noteq> Inl StopIteration"
  by (auto simp add: on_value_def split: sum.splits)

lemma ok_record_source:
  "ok (record_source r t nxt fm)
     = oupd False (\<lambda>kv. i_pc t \<in> set (fn_pc (m_fn (snd kv))))
         (\<lambda>kv. ok (on_value (record_fn r t nxt) kv)) fm"
  unfolding record_source_def
  by (rule ok_try_first) (rule on_value_no_stop, rule record_fn_no_stop)

lemma record_source_kcomm:
  assumes "r1 \<noteq> r2"
  shows "kcomm (\<lambda>fm. ok (record_source r1 a n1 fm)) (\<lambda>fm. ok (record_source r2 b n2 fm))"
  unfolding ok_record_source
proof (rule oupd_commute)
  show "kcomm (\<lambda>kv. ok (on_value (record_fn r1 a n1) kv)) (\<lambda>kv. ok (on_value (record_fn r2 b n2) kv))"
    using record_fn_kcomm [OF assms] by (rule kcomm_on_value)
next
  fix x y :: "string \<times> 'a maps"
  assume "ok (on_value (record_fn r1 a n1) x) = Some y"
  then have "fn_pc (m_fn (snd y)) = fn_pc (m_fn (snd x))"
    by (auto dest: on_value_snd record_fn_static)
  then show "(i_pc a \<in> set (fn_pc (m_fn (snd y)))) = (i_pc a \<in> set (fn_pc (m_fn (snd x)))) \<and>
             (i_pc b \<in> set (fn_pc (m_fn (snd y)))) = (i_pc b \<in> set (fn_pc (m_fn (snd x))))"
    by simp
next
  fix x y :: "string \<times> 'a maps"
  assume "ok (on_value (record_fn r2 b n2) x) = Some y"
  then have "fn_pc (m_fn (snd y)) = fn_pc (m_fn (snd x))"
    by (auto dest: on_value_snd record_fn_static)
  then show "(i_pc a \<in> set (fn_pc (m_fn (snd y)))) = (i_pc a \<in> set (fn_pc (m_fn (snd x)))) \<and>
             (i_pc b \<in> set (fn_pc (m_fn (snd y)))) = (i_pc b \<in> set (fn_pc (m_fn (snd x))))"
    by simp
qed

lemma record_contract_kcomm:
  assumes "r1 \<noteq> r2"
  shows "kcomm (\<lambda>c. ok (record_contract r1 a n1 c)) (\<lambda>c. ok (record_contract r2 b n2 c))"
  unfolding record_contract_def ok_update_first
proof (rule oupd_commute)
  show "kcomm (\<lambda>kv. ok (on_value (record_source r1 a n1) kv))
          (\<lambda>kv. ok (on_value (record_source r2 b n2) kv))"
    using record_source_kcomm [OF assms] by (rule kcomm_on_value)
qed (auto dest: on_value_fst)

lemma oupd_key:
  assumes "map_of xs k = Some v"
  shows "map_option map_of (oupd True (\<lambda>kv. fst kv = k) (\<lambda>kv. ok (on_value f kv)) xs)
       = map_option (\<lambda>v'. (map_of xs)(k \<mapsto> v')) (ok (f v))"
  using assms
proof (induction xs)
  case Nil
  then show ?case by simp
next
  case (Cons x xs)
  show ?case
  proof (cases "fst x = k")
    case True
    with Cons.prems have "snd x = v" by (cases x) simp
    with True show ?thesis
      by (cases x; cases "f v") (auto simp add: on_value_def fun_eq_iff)
  next
    case False
    with Cons.prems have m: "map_of xs k = Some v" by (cases x) simp
    let ?U = "oupd True (\<lambda>kv. fst kv = k) (\<lambda>kv. ok (on_value f kv)) xs"
    note ih = Cons.IH [OF m]
    show ?thesis
    proof (cases "ok (f v)")
      case None
      with ih have "?U = None" by simp
      with None False show ?thesis by simp
    next
      case (Some v')
      with ih obtain ys where u: "?U = Some ys" and ys: "map_of ys = (map_of xs)(k \<mapsto> v')"
        by (cases ?U) (auto simp add: fun_upd_def)
      have "map_of (x # ys) = (map_of (x # xs))(k \<mapsto> v')"
        using False ys by (cases x) (simp add: fun_upd_twist)
      with u Some False show ?thesis by (auto simp add: fun_eq_iff)
    qed
  qed
qed

lemma map_of_load_build:
  "map_of (load_build gb name cm) name
     = Some (case map_of cm name of None \<Rightarrow> gb name | Some c \<Rightarrow> c)"
  by (auto simp add: load_build_def map_add_def image_iff map_of_eq_None_iff
      split: option.splits dest!: map_of_SomeD)

lemma map_of_load_build_upd:
  "(map_of (load_build gb name cm))(name \<mapsto> c) = (map_of cm)(name \<mapsto> c)"
  by (auto simp add: load_build_def map_add_def fun_eq_iff split: option.splits)

lemma a_instr_sim:
  "map_option map_of (ok (record_instr gb r t nxt cm)) = a_instr gb r (t, nxt) (map_of cm)"
proof (cases "i_contractName t = [] \<or> i_source t = []")
  case True
  then show ?thesis by (auto simp add: record_instr_def a_instr_def)
next
  case False
  have "map_option map_of
          (oupd True (\<lambda>kv. fst kv = i_contractName t)
             (\<lambda>kv. ok (on_value (record_contract r t nxt) kv))
             (load_build gb (i_contractName t) cm))
      = map_option (\<lambda>v'. (map_of (load_build gb (i_contractName t) cm))(i_contractName t \<mapsto> v'))
          (ok (record_contract r t nxt
                 (case map_of cm (i_contractName t) of
                    None \<Rightarrow> gb (i_contractName t) | Some c \<Rightarrow> c)))"
    by (rule oupd_key) (rule map_of_load_build)
  with False show ?thesis
    by (simp add: record_instr_def a_instr_def ok_update_first map_of_load_build_upd
        cong: option.case_cong)
qed

lemma a_instr_kcomm:
  assumes "r1 \<noteq> r2"
  shows "kcomm (a_instr gb r1 a) (a_instr gb r2 b)"
  unfolding kcomm_def
proof
  fix M :: "string \<rightharpoonup> 'a contract_map"
  let ?na = "i_contractName (fst a)" and ?nb = "i_contractName (fst b)"
  let ?A = "\<lambda>c. ok (record_contract r1 (fst a) (snd a) c)"
  let ?B = "\<lambda>c. ok (record_contract r2 (fst b) (snd b) c)"
  let ?get = "\<lambda>M n. case M n of None \<Rightarrow> gb n | Some c \<Rightarrow> c"
  show "Option.bind (a_instr gb r1 a M) (a_instr gb r2 b)
      = Option.bind (a_instr gb r2 b M) (a_instr gb r1 a)"
  proof (cases "(?na = [] \<or> i_source (fst a) = []) \<or> (?nb = [] \<or> i_source (fst b) = [])")
    case True
    then have "a_instr gb r1 a = Some \<or> a_instr gb r2 b = Some"
      by (auto simp add: a_instr_def fun_eq_iff)
    then show ?thesis
      by auto
  next
    case False
    then have fa: "a_instr gb r1 a = (\<lambda>M. map_option (\<lambda>c. M(?na \<mapsto> c)) (?A (?get M ?na)))"
      and fb: "a_instr gb r2 b = (\<lambda>M. map_option (\<lambda>c. M(?nb \<mapsto> c)) (?B (?get M ?nb)))"
      by (auto simp add: a_instr_def fun_eq_iff)
    show ?thesis
    proof (cases "?na = ?nb")
      case True
      have c: "Option.bind (?A (?get M ?nb)) ?B = Option.bind (?B (?get M ?nb)) ?A"
        using record_contract_kcomm [OF assms, of "fst a" "snd a" "fst b" "snd b"]
        by (simp add: kcomm_def)
      have "Option.bind (a_instr gb r1 a M) (a_instr gb r2 b)
          = map_option (\<lambda>c. M(?nb \<mapsto> c)) (Option.bind (?A (?get M ?nb)) ?B)"
        unfolding fa fb True by (cases "?A (?get M ?nb)") simp_all
      moreover have "Option.bind (a_instr gb r2 b M) (a_instr gb r1 a)
          = map_option (\<lambda>c. M(?nb \<mapsto> c)) (Option.bind (?B (?get M ?nb)) ?A)"
        unfolding fa fb True by (cases "?B (?get M ?nb)") simp_all
      ultimately show ?thesis using c by simp
    next
      case False
      have "Option.bind (a_instr gb r1 a M) (a_instr gb r2 b)
          = Option.bind (?A (?get M ?na)) (\<lambda>c. map_option (\<lambda>d. M(?na \<mapsto> c, ?nb \<mapsto> d)) (?B (?get M ?nb)))"
        unfolding fa fb using False by (cases "?A (?get M ?na)") simp_all
      moreover have "Option.bind (a_instr gb r2 b M) (a_instr gb r1 a)
          = Option.bind (?B (?get M ?nb)) (\<lambda>d. map_option (\<lambda>c. M(?nb \<mapsto> d, ?na \<mapsto> c)) (?A (?get M ?na)))"
        unfolding fa fb using False by (cases "?B (?get M ?nb)") simp_all
      ultimately show ?thesis
        using False
        by (cases "?A (?get M ?na)"; cases "?B (?get M ?nb)") (simp_all add: fun_upd_twist)
    qed
  qed
qed

lemma a_trace_sim:
  "map_option map_of (ok (record_trace gb r ts cm))
     = kfold (map (a_instr gb r) (with_next ts)) (map_of cm)"
proof (induction ts arbitrary: cm)
  case Nil
  then show ?case by simp
next
  case (Cons t ts)
  let ?n = "case ts of [] \<Rightarrow> None | n # _ \<Rightarrow> Some (i_pc n)"
  show ?case
  proof (cases "record_instr gb r t ?n cm")
    case (Inl e)
    with a_instr_sim [of gb r t ?n cm, symmetric] show ?thesis by simp
  next
    case (Inr cm')
    with a_instr_sim [of gb r t ?n cm, symmetric] Cons.IH [of cm'] show ?thesis by simp
  qed
qed

lemma a_tx_sim: "map_option map_of (ok (record_tx gb x cm)) = a_tx gb x (map_of cm)"
  by (simp add: record_tx_def a_tx_def a_trace_sim)

lemma a_history_sim:
  "map_option map_of (ok (record_history gb h cm)) = kfold (map (a_tx gb) h) (map_of cm)"
proof (induction h arbitrary: cm)
  case Nil
  then show ?case by simp
next
  case (Cons x h)
  show ?case
  proof (cases "record_tx gb x cm")
    case (Inl e)
    with a_tx_sim [of gb x cm, symmetric] show ?thesis by simp
  next
    case (Inr cm')
    with a_tx_sim [of gb x cm, symmetric] Cons.IH [of cm'] show ?thesis by simp
  qed
qed

lemma a_tx_kcomm:
  assumes "tx_id x \<noteq> tx_id y"
  shows "kcomm (a_tx gb x) (a_tx gb y)"
proof -
  have k: "kcomm (kfold (map (a_instr gb (tx_id x)) (with_next (tx_trace x))))
             (kfold (map (a_instr gb (tx_id y)) (with_next (tx_trace y))))"
    by (rule kfold_kcomm) (auto intro: a_instr_kcomm [OF assms])
  have i: "kcomm Some f" for f :: "(string \<rightharpoonup> 'a contract_map) \<Rightarrow> (string \<rightharpoonup> 'a contract_map) option"
    by (simp add: kcomm_def)
  have ax: "a_tx gb x = (if tx_receiver x = [] then Some
                         else kfold (map (a_instr gb (tx_id x)) (with_next (tx_trace x))))"
    by (simp add: a_tx_def fun_eq_iff)
  have ay: "a_tx gb y = (if tx_receiver y = [] then Some
                         else kfold (map (a_instr gb (tx_id y)) (with_next (tx_trace y))))"
    by (simp add: a_tx_def fun_eq_iff)
  show ?thesis
    unfolding ax ay using k i kcomm_sym [OF i] by simp
qed

lemma fold_kfold:
  "fold (\<lambda>x so. Option.bind so (F x)) xs so = Option.bind so (kfold (map F xs))"
proof (induction xs arbitrary: so)
  case Nil
  then show ?case by simp
next
  case (Cons x xs)
  then show ?case by (cases so) simp_all
qed

lemma kfold_perm:
  assumes "\<And>x y. x \<in> set xs \<Longrightarrow> y \<in> set xs \<Longrightarrow> x \<noteq> y \<Longrightarrow> kcomm (F x) (F y)"
    and "mset xs = mset ys"
  shows "kfold (map F xs) s = kfold (map F ys) s"
proof -
  have "fold (\<lambda>x so. Option.bind so (F x)) xs = fold (\<lambda>x so. Option.bind so (F x)) ys"
  proof (rule fold_multiset_equiv [OF _ assms(2)])
    fix x y
    assume xy: "x \<in> set xs" "y \<in> set xs"
    show "(\<lambda>so. Option.bind so (F x)) \<circ> (\<lambda>so. Option.bind so (F y))
        = (\<lambda>so. Option.bind so (F y)) \<circ> (\<lambda>so. Option.bind so (F x))"
    proof (cases "x = y")
      case True
      then show ?thesis by simp
    next
      case False
      with xy have "kcomm (F x) (F y)" by (rule assms(1))
      then have "Option.bind (Option.bind so (F y)) (F x) = Option.bind (Option.bind so (F x)) (F y)"
        for so
        by (cases so) (simp_all add: kcomm_def)
      then show ?thesis by (simp add: fun_eq_iff)
    qed
  qed
  then have "fold (\<lambda>x so. Option.bind so (F x)) xs (Some s)
           = fold (\<lambda>x so. Option.bind so (F x)) ys (Some s)"
    by simp
  then show ?thesis by (simp add: fold_kfold)
qed

lemma record_history_perm:
  assumes "mset h1 = mset h2" "distinct (map tx_id h1)"
  shows "map_option map_of (ok (record_history gb h1 cm))
       = map_option map_of (ok (record_history gb h2 cm))"
proof -
  have "kfold (map (a_tx gb) h1) (map_of cm) = kfold (map (a_tx gb) h2) (map_of cm)"
  proof (rule kfold_perm [OF _ assms(1)])
    fix x y
    assume "x \<in> set h1" "y \<in> set h1" "x \<noteq> y"
    with assms(2) have "tx_id x \<noteq> tx_id y"
      by (auto simp add: distinct_map inj_on_def)
    then show "kcomm (a_tx gb x) (a_tx gb y)" by (rule a_tx_kcomm)
  qed
  then show ?thesis by (simp add: a_history_sim)
qed

lemma update_first_keys:
  "update_first e P (on_value f) xs = Inr ys \<Longrightarrow> map fst ys = map fst xs"
proof (induction xs arbitrary: ys)
  case Nil
  then show ?case by simp
next
  case (Cons x xs)
  then show ?case
    by (auto simp add: on_value_def split: if_splits sum.splits)
qed

lemma record_instr_keys:
  assumes "distinct (map fst cm)" "record_instr gb r t nxt cm = Inr cm'"
  shows "distinct (map fst cm')"
proof (cases "i_contractName t = [] \<or> i_source t = []")
  case True
  with assms show ?thesis by (simp add: record_instr_def)
next
  case False
  with assms(2) have "map fst cm' = map fst (load_build gb (i_contractName t) cm)"
    by (simp add: record_instr_def update_first_keys)
  with assms(1) show ?thesis
    by (auto simp add: load_build_def)
qed

lemma record_trace_keys:
  "distinct (map fst cm) \<Longrightarrow> record_trace gb r ts cm = Inr cm' \<Longrightarrow> distinct (map fst cm')"
proof (induction ts arbitrary: cm)
  case Nil
  then show ?case by simp
next
  case (Cons t ts)
  then show ?case
    by (auto split: sum.splits dest: record_instr_keys)
qed

lemma record_history_keys:
  "distinct (map fst cm) \<Longrightarrow> record_history gb h cm = Inr cm' \<Longrightarrow> distinct (map fst cm')"
proof (induction h arbitrary: cm)
  case Nil
  then show ?case by simp
next
  case (Cons x h)
  then show ?case
    by (auto simp add: record_tx_def split: sum.splits if_splits dest: record_trace_keys)
qed

lemma eval_items_Inr:
  "eval_items ev xs = Inr ws \<Longrightarrow> ws = map (\<lambda>kv. (fst kv, projr (ev (snd kv)))) xs"
  by (induction xs arbitrary: ws) (auto split: sum.splits)

lemma eval_items_Inl:
  "(\<exists>e. eval_items ev xs = Inl e) \<longleftrightarrow> (\<exists>kv \<in> set xs. \<exists>e. ev (snd kv) = Inl e)"
  by (induction xs) (auto split: sum.splits)

lemma eval_items_perm:
  assumes "mset xs = mset ys" "eval_items ev xs = Inr ws"
  shows "\<exists>ws'. eval_items ev ys = Inr ws' \<and> mset ws' = mset ws"
proof -
  have s: "set xs = set ys" using assms(1) by (rule mset_eq_setD)
  have "\<not> (\<exists>e. eval_items ev xs = Inl e)" using assms(2) by simp
  then have "\<not> (\<exists>e. eval_items ev ys = Inl e)"
    unfolding eval_items_Inl s .
  then obtain ws' where w: "eval_items ev ys = Inr ws'"
    by (cases "eval_items ev ys") auto
  have "mset ws' = image_mset (\<lambda>kv. (fst kv, projr (ev (snd kv)))) (mset ys)"
    using eval_items_Inr [OF w] by simp
  also have "\<dots> = mset ws"
    using eval_items_Inr [OF assms(2)] assms(1) by simp
  finally show ?thesis using w by simp
qed

lemma record_history_perm_mset:
  assumes "mset h1 = mset h2" "distinct (map tx_id h1)" "record_history gb h1 [] = Inr cm1"
  shows "\<exists>cm2. record_history gb h2 [] = Inr cm2 \<and> mset cm2 = mset cm1"
proof -
  from record_history_perm [OF assms(1,2), of gb "[]"] assms(3)
  obtain cm2 where r2: "record_history gb h2 [] = Inr cm2" and m: "map_of cm2 = map_of cm1"
    by (cases "record_history gb h2 []") auto
  have d1: "distinct (map fst cm1)" using record_history_keys [OF _ assms(3)] by simp
  have d2: "distinct (map fst cm2)" using record_history_keys [OF _ r2] by simp
  from d1 d2 m have "set cm2 = set cm1" by (simp add: map_of_inject_set)
  moreover from d1 d2 have "distinct cm1" "distinct cm2" by (simp_all add: distinct_map)
  ultimately have "mset cm2 = mset cm1" by (simp add: set_eq_iff_mset_eq_distinct)
  with r2 show ?thesis by simp
qed

text \<open>
  Claim C8. Two histories with the same transactions in different orders (every
  transaction with its own identity, the order inside every trace kept) give the same
  report: when one order yields a report, the other yields a report with the same
  entries, and when one order raises, so does the other.
\<close>

theorem order_independence:
  assumes "mset h1 = mset h2" "distinct (map tx_id h1)"
  shows "(coverage gb h1 = Inr rep1 \<longrightarrow>
            (\<exists>rep2. coverage gb h2 = Inr rep2 \<and> mset rep2 = mset rep1))
       \<and> ((\<exists>e. coverage gb h1 = Inl e) \<longleftrightarrow> (\<exists>e. coverage gb h2 = Inl e))"
proof -
  have fwd: "\<exists>rep'. coverage gb h' = Inr rep' \<and> mset rep' = mset rep"
    if "mset h = mset h'" "distinct (map tx_id h)" "coverage gb h = Inr rep"
    for h h' :: "'a tx list" and rep
  proof -
    from that(3) obtain cm where r: "record_history gb h [] = Inr cm"
      and e: "evaluate cm = Inr rep"
      by (auto simp add: coverage_def split: sum.splits)
    from record_history_perm_mset [OF that(1,2) r]
    obtain cm' where r': "record_history gb h' [] = Inr cm'" and m: "mset cm' = mset cm"
      by auto
    from eval_items_perm [OF m [symmetric] e [unfolded evaluate_def]]
    obtain rep' where "evaluate cm' = Inr rep'" "mset rep' = mset rep"
      by (auto simp add: evaluate_def)
    with r' show ?thesis by (simp add: coverage_def)
  qed
  have d2: "distinct (map tx_id h2)"
  proof -
    have "mset (map tx_id h1) = mset (map tx_id h2)" using assms(1) by simp
    then show ?thesis using assms(2) by (metis mset_eq_imp_distinct_iff)
  qed
  have a: "coverage gb h1 = Inr rep1 \<longrightarrow>
            (\<exists>rep2. coverage gb h2 = Inr rep2 \<and> mset rep2 = mset rep1)"
    using fwd [OF assms] by blast
  have b: "(\<exists>e. coverage gb h1 = Inl e) \<longleftrightarrow> (\<exists>e. coverage gb h2 = Inl e)"
  proof -
    have "(\<exists>rep. coverage gb h1 = Inr rep) \<longleftrightarrow> (\<exists>rep. coverage gb h2 = Inr rep)"
      using fwd [OF assms] fwd [OF assms(1) [symmetric] d2] by blast
    then show ?thesis
      by (cases "coverage gb h1"; cases "coverage gb h2") auto
  qed
  from a b show ?thesis by simp
qed

theorem order_independence_witness:
  "mset [ex_tx, ex_tx2] = mset [ex_tx2, ex_tx]
   \<and> distinct (map tx_id [ex_tx, ex_tx2])
   \<and> coverage ex_build [ex_tx, ex_tx2]
      = Inr [(''C'', [(''C.sol'', [(''f'', Pct 1)])]),
             (''D'', [(''C.sol'', [(''f'', Coverage {0} {} {} (33 / 100))])])]
   \<and> coverage ex_build [ex_tx2, ex_tx]
      = Inr [(''D'', [(''C.sol'', [(''f'', Coverage {0} {} {} (33 / 100))])]),
             (''C'', [(''C.sol'', [(''f'', Pct 1)])])]
   \<and> mset [(''D'', [(''C.sol'', [(''f'', Coverage {0} {} {} (33 / 100))])]),
            (''C'', [(''C.sol'', [(''f'', Pct 1)])])]
      = mset [(''C'', [(''C.sol'', [(''f'', Pct 1)])]),
              (''D'', [(''C.sol'', [(''f'', Coverage {0} {} {} (33 / 100 :: rat))])])]"
proof -
  let ?r1 = "[(''C'', [(''C.sol'', [(''f'', Pct 1)])]),
             (''D'', [(''C.sol'', [(''f'', Coverage {0} {} {} (33 / 100))])])]"
  let ?r2 = "[(''D'', [(''C.sol'', [(''f'', Coverage {0} {} {} (33 / 100))])]),
             (''C'', [(''C.sol'', [(''f'', Pct 1)])])]"
  have p: "mset [ex_tx, ex_tx2] = mset [ex_tx2, ex_tx]" by (simp add: add.commute)
  have d: "distinct (map tx_id [ex_tx, ex_tx2])" by (simp add: ex_defs ex_tx2_def)
  have 1: "coverage ex_build [ex_tx, ex_tx2] = Inr ?r1"
    by (simp add: coverage_def ex_defs ex_tx2_def rec_defs eval_defs round2_one_third
        insert_commute)
  have 2: "coverage ex_build [ex_tx2, ex_tx] = Inr ?r2"
    by (simp add: coverage_def ex_defs ex_tx2_def rec_defs eval_defs round2_one_third
        insert_commute)
  from order_independence [OF p d, of ex_build ?r1] 1 2
  have "mset ?r2 = mset ?r1" by simp
  with p d 1 2 show ?thesis by simp
qed

subsection \<open>Bytecode hash\<close>

text \<open>
  Claim C9. Two bytecode strings that differ only in their last 68 characters have the
  same hash.
\<close>

theorem hash_stability:
  "length s1 = 68 \<Longrightarrow> length s2 = 68 \<Longrightarrow>
   bytecode_hash digest (p @ s1) = bytecode_hash digest (p @ s2)"
  by (simp add: bytecode_hash_def)

theorem hash_stability_witness:
  "length (replicate 68 CHR ''a'') = 68 \<and> length (replicate 68 CHR ''b'') = 68 \<and>
   bytecode_hash rev (''6080'' @ replicate 68 CHR ''a'')
     = bytecode_hash rev (''6080'' @ replicate 68 CHR ''b'')"
  using hash_stability [of "replicate 68 CHR ''a''" "replicate 68 CHR ''b''" rev "''6080''"]
  by simp

end
